theory Spec2Isabelle
  imports Main
begin

section \<open>Usagi's shopping list: a model of usagi-shopping-list.c\<close>

text \<open>
  C strings are modelled as \<^typ>\<open>string\<close> (byte lists) without the terminating NUL.
  A character buffer filled by \<open>fgets\<close> may hold NUL bytes read from the stream; the
  C string the program sees in it ends at the first of them (\<open>cstr\<close>).
  \<open>size_t\<close> values are \<^typ>\<open>nat\<close>: the counters of the program cannot wrap before
  the allocator fails. The process environment is a record: the two output streams,
  the file system as seen through \<open>fopen\<close>, and the number of allocation requests
  that will still succeed.
\<close>

subsection \<open>Characters, buffers and the C library\<close>

abbreviation NL :: char where "NL \<equiv> CHR 0x0A"
abbreviation CR :: char where "CR \<equiv> CHR 0x0D"
abbreviation TAB :: char where "TAB \<equiv> CHR 0x09"
abbreviation NUL :: char where "NUL \<equiv> CHR 0x00"

definition INITIAL_CAPACITY :: nat where "INITIAL_CAPACITY = 8"
definition BUFFER_SIZE :: nat where "BUFFER_SIZE = 1024"

text \<open>\<open>isspace\<close> in the "C" locale: space, \<open>\t \n \v \f \r\<close>.\<close>

definition isspace :: "char \<Rightarrow> bool" where
  "isspace c = (c = CHR 0x20 \<or> c = TAB \<or> c = NL \<or> c = CHR 0x0B \<or> c = CHR 0x0C \<or> c = CR)"

text \<open>The C string held in a buffer: the bytes before the first NUL.\<close>

definition cstr :: "string \<Rightarrow> string" where
  "cstr b = takeWhile (\<lambda>c. c \<noteq> NUL) b"

text \<open>\<open>s[0]\<close> of a C string: the terminating NUL when the string is empty.\<close>

definition char0 :: "string \<Rightarrow> char" where
  "char0 s = (case s of [] \<Rightarrow> NUL | c # _ \<Rightarrow> c)"

text \<open>
  \<open>fgets(buf, size, f)\<close>: at most \<open>size - 1\<close> bytes, stopping after a newline.
  The stream is the list of bytes not yet read; the result is the bytes stored and
  the rest of the stream, or \<open>None\<close> at end of input.
\<close>

fun fgets_read :: "nat \<Rightarrow> string \<Rightarrow> string \<times> string" where
  "fgets_read 0 s = ([], s)"
| "fgets_read (Suc k) [] = ([], [])"
| "fgets_read (Suc k) (c # cs) =
     (if c = NL then ([c], cs)
      else (case fgets_read k cs of (b, r) \<Rightarrow> (c # b, r)))"

definition fgets :: "nat \<Rightarrow> string \<Rightarrow> (string \<times> string) option" where
  "fgets sz s = (if s = [] then None else Some (fgets_read (sz - 1) s))"

text \<open>
  \<open>strtok\<close> with a delimiter set: skip leading delimiters; no token if the string ends
  there; otherwise the token runs to the next delimiter, and the scan resumes after it.
\<close>

definition strtok :: "string \<Rightarrow> string \<Rightarrow> (string \<times> string) option" where
  "strtok s delims =
     (let s1 = dropWhile (\<lambda>c. c \<in> set delims) s in
      if s1 = [] then None
      else Some (takeWhile (\<lambda>c. c \<notin> set delims) s1,
                 drop 1 (dropWhile (\<lambda>c. c \<notin> set delims) s1)))"

text \<open>
  \<open>strtol(s, NULL, 10)\<close> with a 64-bit \<open>long\<close>: leading white space, an optional sign,
  then the longest run of decimal digits; 0 when there is no digit; out-of-range
  values are clamped to \<open>LONG_MIN\<close> and \<open>LONG_MAX\<close>.
\<close>

definition LONG_MAX :: int where "LONG_MAX = 2 ^ 63 - 1"
definition LONG_MIN :: int where "LONG_MIN = - (2 ^ 63)"

definition isdigit :: "char \<Rightarrow> bool" where
  "isdigit c = (48 \<le> (of_char c :: nat) \<and> (of_char c :: nat) \<le> 57)"

definition digit_val :: "char \<Rightarrow> int" where
  "digit_val c = int (of_char c) - 48"

fun digits_val :: "int \<Rightarrow> string \<Rightarrow> int" where
  "digits_val acc [] = acc"
| "digits_val acc (c # cs) = digits_val (10 * acc + digit_val c) cs"

definition clamp_long :: "int \<Rightarrow> int" where
  "clamp_long v = (if v > LONG_MAX then LONG_MAX else if v < LONG_MIN then LONG_MIN else v)"

definition strtol_negative :: "string \<Rightarrow> bool" where
  "strtol_negative s = (let s1 = dropWhile isspace s in s1 \<noteq> [] \<and> hd s1 = CHR ''-'')"

definition strtol_digits :: "string \<Rightarrow> string" where
  "strtol_digits s =
     (let s1 = dropWhile isspace s;
          s2 = (if s1 \<noteq> [] \<and> (hd s1 = CHR ''-'' \<or> hd s1 = CHR ''+'') then tl s1 else s1)
      in takeWhile isdigit s2)"

definition strtol :: "string \<Rightarrow> int" where
  "strtol s =
     (let v = digits_val 0 (strtol_digits s)
      in clamp_long (if strtol_negative s then - v else v))"

text \<open>\<open>printf("%zu")\<close>: decimal digits, most significant first.\<close>

definition digit_char :: "nat \<Rightarrow> char" where   \<comment> \<open>only used with \<open>d < 10\<close>\<close>
  "digit_char d = ''0123456789'' ! d"

function show_nat :: "nat \<Rightarrow> string" where
  "show_nat n = (if n < 10 then [digit_char n] else show_nat (n div 10) @ [digit_char (n mod 10)])"
  by pat_completeness auto
termination
  by (relation "measure id") auto

declare show_nat.simps [simp del]

subsection \<open>rtrim\<close>

text \<open>
  The loop of \<open>rtrim\<close> overwrites the last byte with NUL while it is a newline, a
  carriage return or white space: the string loses its last character each round.
\<close>

definition trailing :: "char \<Rightarrow> bool" where
  "trailing c = (c = NL \<or> c = CR \<or> isspace c)"

function rtrim :: "string \<Rightarrow> string" where
  "rtrim s = (if s \<noteq> [] \<and> trailing (last s) then rtrim (butlast s) else s)"
  by pat_completeness auto
termination
  by (relation "measure length") auto

declare rtrim.simps [simp del]

subsection \<open>The process environment\<close>

record env =
  heap :: nat
  out :: string
  err :: string
  rfile :: "string \<Rightarrow> string + string"
  wfile :: "string \<Rightarrow> string option"

text \<open>
  \<open>heap\<close>: how many further allocation requests succeed. \<open>out\<close>, \<open>err\<close>: the bytes
  written to stdout and stderr so far. \<open>rfile path\<close>: what \<open>fopen(path, "r")\<close> gives,
  the error text of \<open>errno\<close> or the bytes of the file. \<open>wfile path\<close>: the error text
  when \<open>fopen(path, "w")\<close> fails.

  A call either returns, or ends the process with an exit status.
\<close>

datatype 'a result = Exit nat env | Ret 'a env

definition EXIT_SUCCESS :: nat where "EXIT_SUCCESS = 0"
definition EXIT_FAILURE :: nat where "EXIT_FAILURE = 1"

definition printf :: "string \<Rightarrow> env \<Rightarrow> env" where
  "printf s e = e\<lparr>out := out e @ s\<rparr>"

definition perror :: "string \<Rightarrow> string \<Rightarrow> env \<Rightarrow> env" where
  "perror msg reason e = e\<lparr>err := err e @ msg @ '': '' @ reason @ [NL]\<rparr>"

text \<open>One allocation request (\<open>malloc\<close>, \<open>calloc\<close>, \<open>realloc\<close>, \<open>strdup\<close>).\<close>

definition alloc :: "env \<Rightarrow> env option" where
  "alloc e = (if heap e = 0 then None else Some (e\<lparr>heap := heap e - 1\<rparr>))"

definition out_of_memory :: "env \<Rightarrow> 'a result" where
  "out_of_memory e = Exit EXIT_FAILURE (e\<lparr>err := err e @ ''Out of memory'' @ [NL]\<rparr>)"

subsection \<open>The shopping list\<close>

text \<open>
  \<open>items\<close> is the backing array of \<open>capacity\<close> pointers: \<open>None\<close> is a slot holding no
  string (a null or uninitialised pointer), \<open>Some s\<close> a pointer to the string \<open>s\<close>.
\<close>

record ShoppingList =
  items :: "string option list"
  count :: nat
  capacity :: nat

definition create_list :: "env \<Rightarrow> ShoppingList result" where
  "create_list e =
     (case alloc e of
        None \<Rightarrow> out_of_memory e
      | Some e1 \<Rightarrow>
          (case alloc e1 of
             None \<Rightarrow> out_of_memory e1
           | Some e2 \<Rightarrow>
               Ret \<lparr>items = replicate INITIAL_CAPACITY None, count = 0,
                    capacity = INITIAL_CAPACITY\<rparr> e2))"

text \<open>\<open>realloc\<close> of the array to \<open>n\<close> slots keeps the old slots that fit.\<close>

definition realloc_items :: "string option list \<Rightarrow> nat \<Rightarrow> string option list" where
  "realloc_items xs n = take n xs @ replicate (n - length xs) None"

definition ensure_capacity :: "ShoppingList \<Rightarrow> env \<Rightarrow> ShoppingList result" where
  "ensure_capacity l e =
     (if count l \<ge> capacity l then
        (case alloc e of
           None \<Rightarrow> out_of_memory e
         | Some e1 \<Rightarrow>
             Ret (l\<lparr>capacity := capacity l * 2,
                     items := realloc_items (items l) (capacity l * 2)\<rparr>) e1)
      else Ret l e)"

definition add_item :: "ShoppingList \<Rightarrow> string \<Rightarrow> env \<Rightarrow> ShoppingList result" where
  "add_item l item e =
     (if char0 item = NUL then Ret l e
      else
        (case ensure_capacity l e of
           Exit c e1 \<Rightarrow> Exit c e1
         | Ret l1 e1 \<Rightarrow>
             (case alloc e1 of
                None \<Rightarrow> out_of_memory e1
              | Some e2 \<Rightarrow>
                  Ret (l1\<lparr>items := (items l1)[count l1 := Some item],
                           count := count l1 + 1\<rparr>) e2)))"

text \<open>The string a slot points to (slots below \<open>count\<close> always point to one).\<close>

definition item_at :: "ShoppingList \<Rightarrow> nat \<Rightarrow> string" where
  "item_at l i = the (items l ! i)"

text \<open>\<open>print_rows\<close> is the loop of \<open>print_list\<close>, run from \<open>i = 0\<close>.\<close>

function print_rows :: "ShoppingList \<Rightarrow> nat \<Rightarrow> env \<Rightarrow> env" where
  "print_rows l i e =
     (if i < count l
      then print_rows l (i + 1) (printf (show_nat (i + 1) @ ''. '' @ item_at l i @ [NL]) e)
      else e)"
  by pat_completeness auto
termination
  by (relation "measure (\<lambda>(l, i, e). count l - i)") auto

declare print_rows.simps [simp del]

definition print_list :: "ShoppingList \<Rightarrow> env \<Rightarrow> env" where
  "print_list l e =
     (if count l = 0 then printf (''(shopping list is empty)'' @ [NL]) e
      else print_rows l 0 (printf (''Your shopping list:'' @ [NL]) e))"

text \<open>
  \<open>shift_down\<close> is the loop of \<open>remove_item\<close>, run from \<open>i = index\<close> with \<open>n = count\<close>. The
  slot that was last keeps its old pointer; \<open>free\<close> changes no value the program reads.
\<close>

function shift_down :: "string option list \<Rightarrow> nat \<Rightarrow> nat \<Rightarrow> string option list" where
  "shift_down xs i n =
     (if i + 1 < n then shift_down (xs[i := xs ! (i + 1)]) (i + 1) n else xs)"
  by pat_completeness auto
termination
  by (relation "measure (\<lambda>(xs, i, n). n - i)") auto

declare shift_down.simps [simp del]

definition remove_item :: "ShoppingList \<Rightarrow> nat \<Rightarrow> env \<Rightarrow> ShoppingList \<times> env" where
  "remove_item l index e =
     (if index \<ge> count l then (l, printf (''Invalid index'' @ [NL]) e)
      else (l\<lparr>items := shift_down (items l) index (count l), count := count l - 1\<rparr>, e))"

subsection \<open>Saving and loading\<close>

text \<open>
  \<open>write_rows\<close> is the loop of \<open>save_to_file\<close>, run from \<open>i = 0\<close> on the empty file: each
  \<open>fprintf\<close> appends the item and a newline.
\<close>

function write_rows :: "ShoppingList \<Rightarrow> nat \<Rightarrow> string \<Rightarrow> string" where
  "write_rows l i f =
     (if i < count l then write_rows l (i + 1) (f @ item_at l i @ [NL]) else f)"
  by pat_completeness auto
termination
  by (relation "measure (\<lambda>(l, i, f). count l - i)") auto

declare write_rows.simps [simp del]

text \<open>
  A file opened with mode \<open>"w"\<close> starts empty; once written and closed, opening it for
  reading gives the bytes written.
\<close>

definition save_to_file :: "ShoppingList \<Rightarrow> string \<Rightarrow> env \<Rightarrow> env" where
  "save_to_file l filename e =
     (case wfile e filename of
        Some reason \<Rightarrow> perror ''Failed to open file'' reason e
      | None \<Rightarrow>
          printf (''Saved '' @ show_nat (count l) @ '' items to '' @ [CHR 0x27] @ filename
                    @ [CHR 0x27] @ [NL])
            (e\<lparr>rfile := (rfile e)(filename := Inr (write_rows l 0 []))\<rparr>))"

text \<open>
  \<open>load_lines\<close> is the \<open>while (fgets ...)\<close> loop of \<open>load_from_file\<close> on the bytes of the
  file not yet read. It ends because every \<open>fgets\<close> that returns a line consumes at
  least one byte.
\<close>

lemma fgets_read_shorter: "s \<noteq> [] \<Longrightarrow> 0 < k \<Longrightarrow> length (snd (fgets_read k s)) < length s"
proof (induction k s rule: fgets_read.induct)
  case (3 k c cs)
  show ?case
  proof (cases "c = NL")
    case True
    then show ?thesis by simp
  next
    case False
    show ?thesis
    proof (cases "cs = [] \<or> k = 0")
      case True
      then show ?thesis using False by (cases k) auto
    next
      case False2: False
      with 3 False have "length (snd (fgets_read k cs)) < length cs" by simp
      then show ?thesis using False by (cases "fgets_read k cs") auto
    qed
  qed
qed simp_all

lemma fgets_shorter: "fgets BUFFER_SIZE s = Some (b, r) \<Longrightarrow> length r < length s"
  using fgets_read_shorter [of s "BUFFER_SIZE - 1"]
  by (auto simp: fgets_def BUFFER_SIZE_def split: if_splits)

function load_lines :: "ShoppingList \<Rightarrow> string \<Rightarrow> env \<Rightarrow> ShoppingList result" where
  "load_lines l f e =
     (case fgets BUFFER_SIZE f of
        None \<Rightarrow> Ret l e
      | Some (chunk, rest) \<Rightarrow>
          (let buf = rtrim (cstr chunk) in
           if char0 buf = NUL then load_lines l rest e
           else
             (case add_item l buf e of
                Exit c e1 \<Rightarrow> Exit c e1
              | Ret l1 e1 \<Rightarrow> load_lines l1 rest e1)))"
  by pat_completeness auto
termination
  by (relation "measure (\<lambda>(l, f, e). length f)") (auto dest: fgets_shorter)

declare load_lines.simps [simp del]

definition load_from_file :: "ShoppingList \<Rightarrow> string \<Rightarrow> env \<Rightarrow> ShoppingList result" where
  "load_from_file l filename e =
     (case rfile e filename of
        Inl reason \<Rightarrow> Ret l (perror ''Failed to open file'' reason e)
      | Inr f \<Rightarrow>
          (case load_lines l f e of
             Exit c e1 \<Rightarrow> Exit c e1
           | Ret l1 e1 \<Rightarrow>
               Ret l1 (printf (''Loaded items from '' @ [CHR 0x27] @ filename @ [CHR 0x27]
                                 @ '' (now '' @ show_nat (count l1) @ '' items)'' @ [NL]) e1)))"

subsection \<open>Commands\<close>

definition delims :: string where
  "delims = [CHR 0x20, TAB]"

text \<open>\<open>clear_items\<close> is the loop of \<open>/clear\<close>: \<open>while (list->count) remove_item(list, 0)\<close>.\<close>

function clear_items :: "ShoppingList \<Rightarrow> env \<Rightarrow> ShoppingList \<times> env" where
  "clear_items l e =
     (if count l \<noteq> 0 then (case remove_item l 0 e of (l1, e1) \<Rightarrow> clear_items l1 e1)
      else (l, e))"
  by pat_completeness auto
termination
  by (relation "measure (\<lambda>(l, e). count l)") (auto simp: remove_item_def)

declare clear_items.simps [simp del]

definition help_text :: string where
  "help_text =
     ''Commands:'' @ [NL] @
     ''  /view            - show list'' @ [NL] @
     ''  /remove INDEX    - remove item by number'' @ [NL] @
     ''  /save FILE       - save list to file'' @ [NL] @
     ''  /load FILE       - load items from file (appends)'' @ [NL] @
     ''  /clear           - remove all items'' @ [NL] @
     ''  /quit            - quit immediately'' @ [NL]"

text \<open>
  The value returned is the C \<open>int\<close>: 1 when the line was handled as a command, 0
  otherwise. \<open>/quit\<close> ends the process instead of returning.
\<close>

definition try_handle_command ::
  "ShoppingList \<Rightarrow> string \<Rightarrow> env \<Rightarrow> (int \<times> ShoppingList) result" where
  "try_handle_command l input e =
     (if char0 input \<noteq> CHR ''/'' then Ret (0, l) e
      else
        (let tmp = take (BUFFER_SIZE - 1) input in
         case strtok tmp delims of
           None \<Rightarrow> Ret (1, l) e
         | Some (cmd, nxt) \<Rightarrow>
             if cmd = ''/view'' then Ret (1, l) (print_list l e)
             else if cmd = ''/remove'' then
               (case strtok nxt delims of
                  None \<Rightarrow> Ret (1, l) (printf (''Usage: /remove INDEX'' @ [NL]) e)
                | Some (arg, _) \<Rightarrow>
                    (let idx = strtol arg in
                     if idx \<le> 0 then Ret (1, l) (printf (''Specify a positive index'' @ [NL]) e)
                     else (case remove_item l (nat idx - 1) e of (l1, e1) \<Rightarrow> Ret (1, l1) e1)))
             else if cmd = ''/save'' then
               (case strtok nxt delims of
                  None \<Rightarrow> Ret (1, l) (printf (''Usage: /save filename'' @ [NL]) e)
                | Some (arg, _) \<Rightarrow> Ret (1, l) (save_to_file l arg e))
             else if cmd = ''/load'' then
               (case strtok nxt delims of
                  None \<Rightarrow> Ret (1, l) (printf (''Usage: /load filename'' @ [NL]) e)
                | Some (arg, _) \<Rightarrow>
                    (case load_from_file l arg e of
                       Exit c e1 \<Rightarrow> Exit c e1
                     | Ret l1 e1 \<Rightarrow> Ret (1, l1) e1))
             else if cmd = ''/clear'' then
               (case clear_items l e of
                  (l1, e1) \<Rightarrow> Ret (1, l1) (printf (''Cleared the list'' @ [NL]) e1))
             else if cmd = ''/help'' then Ret (1, l) (printf help_text e)
             else if cmd = ''/quit'' then Exit EXIT_SUCCESS (printf (''Goodbye!'' @ [NL]) e)
             else Ret (1, l) (printf (''Unknown command. Type /help for commands.'' @ [NL]) e)))"

subsection \<open>The interaction loop\<close>

text \<open>
  \<open>main_done\<close> is the code after the label \<open>done\<close>; \<open>main_loop\<close> is the outer
  \<open>for (;;)\<close> (asking for an item) and \<open>confirm_loop\<close> the inner one (asking whether
  there is anything else). Standard input is the list of bytes not yet read. The result
  is the exit status of the process and the final environment.
\<close>

definition prompt_item :: string where
  "prompt_item = ''Usagi: What do you want to add? '' @ [NL] @ ''> ''"

definition prompt_more :: string where
  "prompt_more = ''Usagi: Anything else? (y/n) '' @ [NL] @ ''> ''"

definition main_done :: "ShoppingList \<Rightarrow> env \<Rightarrow> nat \<times> env" where
  "main_done l e = (0, print_list l (printf ([NL] @ ''Final list:'' @ [NL]) e))"

function main_loop :: "ShoppingList \<Rightarrow> string \<Rightarrow> env \<Rightarrow> nat \<times> env"
  and confirm_loop :: "ShoppingList \<Rightarrow> string \<Rightarrow> env \<Rightarrow> nat \<times> env" where
  "main_loop l inp e =
     (let e0 = printf prompt_item e in
      case fgets BUFFER_SIZE inp of
        None \<Rightarrow> main_done l e0
      | Some (chunk, rest) \<Rightarrow>
          (let buf = rtrim (cstr chunk) in
           if char0 buf = NUL then main_loop l rest (printf (''(no input)'' @ [NL]) e0)
           else
             (case try_handle_command l buf e0 of
                Exit c e1 \<Rightarrow> (c, e1)
              | Ret (r, l1) e1 \<Rightarrow>
                  if r \<noteq> 0 then main_loop l1 rest e1
                  else
                    (case add_item l1 buf e1 of
                       Exit c e2 \<Rightarrow> (c, e2)
                     | Ret l2 e2 \<Rightarrow>
                         confirm_loop l2 rest (printf (''Added: '' @ buf @ [NL]) e2)))))"
| "confirm_loop l inp e =
     (let e0 = printf prompt_more e in
      case fgets BUFFER_SIZE inp of
        None \<Rightarrow> main_done l e0
      | Some (chunk, rest) \<Rightarrow>
          (let buf = rtrim (cstr chunk) in
           if char0 buf = NUL
           then confirm_loop l rest (printf (''Please answer y or n.'' @ [NL]) e0)
           else if char0 buf = CHR ''y'' \<or> char0 buf = CHR ''Y'' then main_loop l rest e0
           else if char0 buf = CHR ''n'' \<or> char0 buf = CHR ''N'' then main_done l e0
           else if char0 buf = CHR ''/'' then
             (case try_handle_command l buf e0 of
                Exit c e1 \<Rightarrow> (c, e1)
              | Ret (r, l1) e1 \<Rightarrow>
                  if r \<noteq> 0 then confirm_loop l1 rest e1
                  else confirm_loop l1 rest
                         (printf (''Please answer y or n or enter a command starting with /.''
                                    @ [NL]) e1))
           else confirm_loop l rest
                  (printf (''Please answer y or n. You can also use /view, /save, /help, etc.''
                             @ [NL]) e0)))"
  by pat_completeness auto
termination
  by (relation "measure (\<lambda>x. case x of Inl (l, inp, e) \<Rightarrow> length inp
                                    | Inr (l, inp, e) \<Rightarrow> length inp)")
     (auto dest: fgets_shorter)

declare main_loop.simps [simp del]
declare confirm_loop.simps [simp del]

definition main :: "string \<Rightarrow> env \<Rightarrow> nat \<times> env" where
  "main inp e =
     (case create_list e of
        Exit c e1 \<Rightarrow> (c, e1)
      | Ret l e1 \<Rightarrow>
          main_loop l inp
            (printf (''Type an item to add it. Type /help for commands.'' @ [NL] @ [NL])
               (printf (''Welcome to Usagi'' @ [CHR 0x27] @ ''s Shopping List!'' @ [NL]) e1)))"

section \<open>The list as a sequence, and its invariant\<close>

text \<open>
  The sequence of items a list holds: the strings of the slots below \<open>count\<close>, in
  order. A list is well formed when the array has \<open>capacity\<close> slots, at least one,
  \<open>count\<close> does not exceed it, and every slot below \<open>count\<close> points to a string.
\<close>

definition list_items :: "ShoppingList \<Rightarrow> string list" where
  "list_items l = map (item_at l) [0..<count l]"

definition wf_list :: "ShoppingList \<Rightarrow> bool" where
  "wf_list l = (0 < capacity l \<and> count l \<le> capacity l \<and> length (items l) = capacity l \<and>
                list_all (\<lambda>x. x \<noteq> None) (take (count l) (items l)))"

text \<open>The list \<open>create_list\<close> returns.\<close>

definition fresh_list :: ShoppingList where
  "fresh_list = \<lparr>items = replicate INITIAL_CAPACITY None, count = 0, capacity = INITIAL_CAPACITY\<rparr>"

text \<open>
  An environment in which nothing has been written yet, no file can be read, every
  file can be written, and \<open>n\<close> allocation requests will succeed; and sample lists.
\<close>

definition quiet_env :: "nat \<Rightarrow> env" where
  "quiet_env n = \<lparr>heap = n, out = [], err = [],
                   rfile = (\<lambda>_. Inl ''No such file or directory''), wfile = (\<lambda>_. None)\<rparr>"

definition three_items :: ShoppingList where
  "three_items = \<lparr>items = [Some ''milk'', Some ''eggs'', Some ''tea'', None, None, None, None, None],
                   count = 3, capacity = 8\<rparr>"

definition apples_bread :: ShoppingList where
  "apples_bread = \<lparr>items = [Some ''apples'', Some ''bread'', None, None, None, None, None, None],
                    count = 2, capacity = 8\<rparr>"

definition spaced_item :: ShoppingList where
  "spaced_item = \<lparr>items = [Some ''a '', None, None, None, None, None, None, None],
                   count = 1, capacity = 8\<rparr>"

text \<open>
  An item as the input paths store it (and as a saved file gives it back): not empty,
  not ending in white space, without a newline or a NUL, and no longer than a buffer
  holds. \<open>file_lines\<close> is the text of a file with one item per line.
\<close>

definition plain_item :: "string \<Rightarrow> bool" where
  "plain_item s = (s \<noteq> [] \<and> \<not> trailing (last s) \<and> NL \<notin> set s \<and> NUL \<notin> set s \<and>
                   length s \<le> BUFFER_SIZE - 1)"

definition file_lines :: "string list \<Rightarrow> string" where
  "file_lines xs = concat (map (\<lambda>s. s @ [NL]) xs)"

text \<open>
  What both loops of \<open>main\<close> do to read a line: \<open>fgets\<close> into the buffer, then \<open>rtrim\<close>.
  The result is the C string left in the buffer and the rest of the stream.
\<close>

definition next_line :: "string \<Rightarrow> (string \<times> string) option" where
  "next_line inp =
     (case fgets BUFFER_SIZE inp of
        None \<Rightarrow> None
      | Some (chunk, rest) \<Rightarrow> Some (rtrim (cstr chunk), rest))"

text \<open>
  The first two tokens \<open>try_handle_command\<close> finds in a line: the command and, if there
  is one, its argument.
\<close>

definition cmd_arg :: "string \<Rightarrow> (string \<times> string option) option" where
  "cmd_arg input =
     (case strtok (take (BUFFER_SIZE - 1) input) delims of
        None \<Rightarrow> None
      | Some (cmd, nxt) \<Rightarrow>
          Some (cmd, (case strtok nxt delims of None \<Rightarrow> None | Some (arg, _) \<Rightarrow> Some arg)))"

text \<open>
  The outcomes of \<open>try_handle_command\<close> on a command line: it returns 1, or the process
  ends, through \<open>/quit\<close> with status 0 or out of memory with status 1.
\<close>

definition handled :: "env \<Rightarrow> (int \<times> ShoppingList) result \<Rightarrow> bool" where
  "handled e r =
     (case r of
        Exit c e' \<Rightarrow> (c = EXIT_SUCCESS \<and> e' = printf (''Goodbye!'' @ [NL]) e) \<or> c = EXIT_FAILURE
      | Ret (v, l') e' \<Rightarrow> v = 1)"

text \<open>The invariant of the stored items: the list is well formed and no item is empty.\<close>

definition items_nonempty :: "ShoppingList \<Rightarrow> bool" where
  "items_nonempty l = (wf_list l \<and> list_all (\<lambda>s. s \<noteq> []) (list_items l))"

section \<open>Properties of the model\<close>

subsection \<open>Removing an item\<close>

lemma wf_list_alt:
  "wf_list l = (0 < capacity l \<and> count l \<le> capacity l \<and> length (items l) = capacity l \<and>
                (\<forall>i<count l. items l ! i \<noteq> None))"
  by (auto simp: wf_list_def list_all_length)

lemma shift_down_length: "length (shift_down xs i n) = length xs"
  by (induction xs i n rule: shift_down.induct) (subst shift_down.simps, simp)

lemma shift_down_nth:
  "n \<le> length xs \<Longrightarrow> j < length xs \<Longrightarrow>
   shift_down xs i n ! j = (if i \<le> j \<and> j + 1 < n then xs ! (j + 1) else xs ! j)"
proof (induction xs i n rule: shift_down.induct)
  case (1 xs i n)
  show ?case
  proof (cases "i + 1 < n")
    case True
    let ?ys = "xs[i := xs ! (i + 1)]"
    have "shift_down xs i n ! j = shift_down ?ys (i + 1) n ! j"
      using True by (subst shift_down.simps) simp
    also have "\<dots> = (if i + 1 \<le> j \<and> j + 1 < n then ?ys ! (j + 1) else ?ys ! j)"
      using 1 True by simp
    also have "\<dots> = (if i \<le> j \<and> j + 1 < n then xs ! (j + 1) else xs ! j)"
      using 1(2,3) True by (auto simp: nth_list_update)
    finally show ?thesis .
  next
    case False
    then show ?thesis by (subst shift_down.simps) auto
  qed
qed

lemma remove_item_valid:
  assumes "wf_list l" and lt: "index < count l"
  shows "\<exists>l'. remove_item l index e = (l', e) \<and> wf_list l' \<and>
              count l' + 1 = count l \<and> capacity l' = capacity l \<and>
              list_items l' = take index (list_items l) @ drop (index + 1) (list_items l) \<and>
              (\<forall>j<index. item_at l' j = item_at l j) \<and>
              (\<forall>j. index \<le> j \<and> j < count l' \<longrightarrow> item_at l' j = item_at l (j + 1))"
proof -
  define l' where "l' = l\<lparr>items := shift_down (items l) index (count l), count := count l - 1\<rparr>"
  have r: "remove_item l index e = (l', e)"
    using lt by (simp add: remove_item_def l'_def)
  have len: "count l \<le> length (items l)"
    using assms by (simp add: wf_list_alt)
  have at: "item_at l' j = (if index \<le> j \<and> j + 1 < count l then item_at l (j + 1) else item_at l j)"
    if "j < length (items l)" for j
    using that len by (simp add: item_at_def l'_def shift_down_nth)
  have cnt: "count l' + 1 = count l" using lt by (simp add: l'_def)
  have wf: "wf_list l'"
    using assms lt unfolding wf_list_alt l'_def
    by (auto simp: shift_down_length shift_down_nth)
  have li: "list_items l' = take index (list_items l) @ drop (index + 1) (list_items l)"
  proof (rule nth_equalityI)
    show "length (list_items l') = length (take index (list_items l) @ drop (index + 1) (list_items l))"
      using lt cnt by (simp add: list_items_def)
  next
    fix j assume "j < length (list_items l')"
    then have j: "j < count l'" by (simp add: list_items_def)
    then have "j < length (items l)" using cnt len by simp
    then show "list_items l' ! j = (take index (list_items l) @ drop (index + 1) (list_items l)) ! j"
      using j cnt lt at [of j] by (auto simp: list_items_def nth_append)
  qed
  have lo: "\<forall>j<index. item_at l' j = item_at l j"
    using at lt len by auto
  have hi: "\<forall>j. index \<le> j \<and> j < count l' \<longrightarrow> item_at l' j = item_at l (j + 1)"
    using at cnt len by auto
  show ?thesis
    using r wf cnt li lo hi by (intro exI [of _ l']) (simp add: l'_def)
qed

lemma remove_item_invalid:
  "count l \<le> index \<Longrightarrow> remove_item l index e = (l, printf (''Invalid index'' @ [NL]) e)"
  by (simp add: remove_item_def)

subsection \<open>rtrim and the C string of a buffer\<close>

lemma trailing_isspace: "trailing c = isspace c"
  by (auto simp: trailing_def isspace_def)

lemma rtrim_Nil: "rtrim [] = []"
  by (subst rtrim.simps) simp

lemma rtrim_snoc: "trailing c \<Longrightarrow> rtrim (s @ [c]) = rtrim s"
  by (subst rtrim.simps) simp

lemma rtrim_keep: "s = [] \<or> \<not> trailing (last s) \<Longrightarrow> rtrim s = s"
  by (subst rtrim.simps) auto

lemma rtrim_split: "\<exists>t. s = rtrim s @ t \<and> (\<forall>c\<in>set t. trailing c)"
proof (induction s rule: rtrim.induct)
  case (1 s)
  show ?case
  proof (cases "s \<noteq> [] \<and> trailing (last s)")
    case True
    with 1 obtain t where t: "butlast s = rtrim (butlast s) @ t" "\<forall>c\<in>set t. trailing c"
      by blast
    have r: "rtrim s = rtrim (butlast s)"
      using True by (subst rtrim.simps) simp
    have "s = butlast s @ [last s]" using True by simp
    then have "s = rtrim s @ (t @ [last s])" using t(1) r by (metis append.assoc)
    moreover have "\<forall>c\<in>set (t @ [last s]). trailing c" using t(2) True by simp
    ultimately show ?thesis by blast
  next
    case False
    then have "rtrim s = s" by (subst rtrim.simps) auto
    then show ?thesis by simp
  qed
qed

lemma rtrim_last: "rtrim s \<noteq> [] \<Longrightarrow> \<not> trailing (last (rtrim s))"
proof (induction s rule: rtrim.induct)
  case (1 s)
  show ?case
  proof (cases "s \<noteq> [] \<and> trailing (last s)")
    case True
    then have r: "rtrim s = rtrim (butlast s)" by (subst rtrim.simps) simp
    with 1 True show ?thesis by simp
  next
    case False
    then have "rtrim s = s" by (subst rtrim.simps) auto
    with False 1(2) show ?thesis by auto
  qed
qed

lemma rtrim_blank: "\<forall>c\<in>set s. trailing c \<Longrightarrow> rtrim s = []"
proof (induction s rule: rev_induct)
  case Nil
  show ?case by (rule rtrim_Nil)
next
  case (snoc c s)
  then show ?case by (simp add: rtrim_snoc)
qed

lemma rtrim_length: "length (rtrim s) \<le> length s"
proof -
  obtain t where "s = rtrim s @ t" using rtrim_split by blast
  then have "length s = length (rtrim s) + length t" by (metis length_append)
  then show ?thesis by simp
qed

lemma rtrim_set: "set (rtrim s) \<subseteq> set s"
proof -
  obtain t where "s = rtrim s @ t" using rtrim_split by blast
  then have "set s = set (rtrim s) \<union> set t" by (metis set_append)
  then show ?thesis by blast
qed

lemma cstr_no_NUL: "NUL \<notin> set (cstr b)"
  unfolding cstr_def by (induction b) auto

lemma cstr_id: "NUL \<notin> set b \<Longrightarrow> cstr b = b"
  unfolding cstr_def by (induction b) auto

lemma cstr_length: "length (cstr b) \<le> length b"
  unfolding cstr_def by (rule length_takeWhile_le)

lemma cstr_prefix: "\<exists>t. b = cstr b @ t"
  unfolding cstr_def by (metis takeWhile_dropWhile_id)

subsection \<open>fgets\<close>

lemma fgets_read_split: "fgets_read k s = (b, r) \<Longrightarrow> s = b @ r \<and> length b \<le> k"
proof (induction k s arbitrary: b r rule: fgets_read.induct)
  case (3 k c cs)
  then show ?case by (cases "fgets_read k cs") (auto split: if_splits)
qed auto

lemma fgets_read_NL: "fgets_read k s = (b, r) \<Longrightarrow> NL \<notin> set (butlast b)"
proof (induction k s arbitrary: b r rule: fgets_read.induct)
  case (3 k c cs)
  then show ?case by (cases "fgets_read k cs") (auto split: if_splits)
qed auto

lemma fgets_read_line:
  "NL \<notin> set s \<Longrightarrow> length s < k \<Longrightarrow> fgets_read k (s @ NL # rest) = (s @ [NL], rest)"
proof (induction s arbitrary: k)
  case Nil
  then show ?case by (cases k) auto
next
  case (Cons c s)
  then show ?case by (cases k) auto
qed

lemma fgets_read_full:
  "NL \<notin> set s \<Longrightarrow> length s = k \<Longrightarrow> fgets_read k (s @ rest) = (s, rest)"
proof (induction s arbitrary: k)
  case Nil
  then show ?case by auto
next
  case (Cons c s)
  then show ?case by (cases k) auto
qed

lemma fgets_line:
  "NL \<notin> set s \<Longrightarrow> length s < BUFFER_SIZE - 1 \<Longrightarrow>
   fgets BUFFER_SIZE (s @ NL # rest) = Some (s @ [NL], rest)"
  by (simp add: fgets_def fgets_read_line)

lemma fgets_full:
  "NL \<notin> set s \<Longrightarrow> length s = BUFFER_SIZE - 1 \<Longrightarrow>
   fgets BUFFER_SIZE (s @ rest) = Some (s, rest)"
  by (auto simp: fgets_def fgets_read_full BUFFER_SIZE_def)

subsection \<open>Adding an item\<close>

lemma list_items_length: "length (list_items l) = count l"
  by (simp add: list_items_def)

lemma list_items_eq:
  "count l' = count l \<Longrightarrow> (\<And>i. i < count l \<Longrightarrow> items l' ! i = items l ! i) \<Longrightarrow>
   list_items l' = list_items l"
  by (simp add: list_items_def item_at_def)

lemma ensure_capacity_cases:
  assumes "wf_list l"
  shows "(heap e = 0 \<and> capacity l \<le> count l \<and> ensure_capacity l e = out_of_memory e) \<or>
         (\<exists>l1 e1. ensure_capacity l e = Ret l1 e1 \<and> wf_list l1 \<and> count l1 = count l \<and>
            count l1 < capacity l1 \<and> list_items l1 = list_items l \<and>
            (e1 = e \<or> (0 < heap e \<and> e1 = e\<lparr>heap := heap e - 1\<rparr>)))"
proof (cases "capacity l \<le> count l")
  case False
  then show ?thesis using assms by (simp add: ensure_capacity_def)
next
  case True
  show ?thesis
  proof (cases "heap e = 0")
    case True
    then show ?thesis using \<open>capacity l \<le> count l\<close> by (simp add: ensure_capacity_def alloc_def)
  next
    case False
    define l1 where "l1 = l\<lparr>capacity := capacity l * 2,
                            items := realloc_items (items l) (capacity l * 2)\<rparr>"
    have r: "ensure_capacity l e = Ret l1 (e\<lparr>heap := heap e - 1\<rparr>)"
      using True False by (simp add: ensure_capacity_def alloc_def l1_def)
    have its: "items l1 = items l @ replicate (capacity l) None"
      using assms by (simp add: l1_def realloc_items_def wf_list_alt)
    have wf: "wf_list l1"
      using assms its by (auto simp: wf_list_alt l1_def nth_append)
    have "list_items l1 = list_items l"
      using assms its by (intro list_items_eq) (auto simp: l1_def wf_list_alt nth_append)
    moreover have "count l1 < capacity l1" using assms by (simp add: l1_def wf_list_alt)
    ultimately show ?thesis using r wf False by (simp add: l1_def)
  qed
qed

lemma add_item_empty: "char0 item = NUL \<Longrightarrow> add_item l item e = Ret l e"
  by (simp add: add_item_def)

lemma add_item_cases:
  assumes "wf_list l" and "char0 item \<noteq> NUL"
  shows "(\<exists>e1. add_item l item e = Exit EXIT_FAILURE e1 \<and> heap e < 2) \<or>
         (\<exists>l1 h. add_item l item e = Ret l1 (e\<lparr>heap := h\<rparr>) \<and> wf_list l1 \<and>
            count l1 = count l + 1 \<and> list_items l1 = list_items l @ [item] \<and>
            0 < heap e \<and> heap e - 2 \<le> h \<and> h < heap e)"
proof -
  consider (oom) "heap e = 0" "ensure_capacity l e = out_of_memory e"
    | (ok) l1 e1 where "ensure_capacity l e = Ret l1 e1" "wf_list l1"
        "count l1 = count l" "count l1 < capacity l1" "list_items l1 = list_items l"
        "e1 = e \<or> (0 < heap e \<and> e1 = e\<lparr>heap := heap e - 1\<rparr>)"
    using ensure_capacity_cases [OF assms(1), of e] by (elim disjE exE conjE) blast+
  then show ?thesis
  proof cases
    case oom
    then show ?thesis using assms(2) by (simp add: add_item_def out_of_memory_def)
  next
    case (ok l1 e1)
    note ec = ok(1) and wf1 = ok(2) and c1 = ok(3) and lt = ok(4) and li = ok(5) and e1 = ok(6)
    show ?thesis
    proof (cases "heap e1 = 0")
      case True
      then have "add_item l item e = out_of_memory e1"
        using assms(2) ec by (simp add: add_item_def alloc_def)
      moreover have "heap e < 2" using True e1 by auto
      ultimately show ?thesis by (simp add: out_of_memory_def)
    next
      case False
      define l2 where "l2 = l1\<lparr>items := (items l1)[count l1 := Some item], count := count l1 + 1\<rparr>"
      have r: "add_item l item e = Ret l2 (e1\<lparr>heap := heap e1 - 1\<rparr>)"
        using assms(2) ec False by (simp add: add_item_def alloc_def l2_def)
      have wf2: "wf_list l2"
        using wf1 lt by (auto simp: wf_list_alt l2_def nth_list_update)
      have "list_items l2 = list_items l1 @ [item]"
        using wf1 lt by (simp add: list_items_def l2_def item_at_def wf_list_alt)
      then have li2: "list_items l2 = list_items l @ [item]" using li by simp
      have "e1\<lparr>heap := heap e1 - 1\<rparr> = e\<lparr>heap := heap e1 - 1\<rparr>" using e1 by auto
      moreover have "0 < heap e \<and> heap e - 2 \<le> heap e1 - 1 \<and> heap e1 - 1 < heap e"
        using e1 False by auto
      ultimately show ?thesis using r wf2 li2 c1 by (auto simp: l2_def)
    qed
  qed
qed

lemma add_item_enough:
  assumes "wf_list l" and "char0 item \<noteq> NUL" and "2 \<le> heap e"
  shows "\<exists>l1 h. add_item l item e = Ret l1 (e\<lparr>heap := h\<rparr>) \<and> wf_list l1 \<and>
            count l1 = count l + 1 \<and> list_items l1 = list_items l @ [item] \<and>
            heap e - 2 \<le> h \<and> h < heap e"
  using add_item_cases [OF assms(1,2), of e] assms(3) by auto

subsection \<open>What a saved file holds\<close>

lemma write_rows_eq:
  "write_rows l i f = f @ concat (map (\<lambda>k. item_at l k @ [NL]) [i..<count l])"
proof (induction l i f rule: write_rows.induct)
  case (1 l i f)
  show ?case
  proof (cases "i < count l")
    case True
    then have "write_rows l i f = write_rows l (i + 1) (f @ item_at l i @ [NL])"
      by (subst write_rows.simps) simp
    also have "\<dots> = (f @ item_at l i @ [NL]) @
                      concat (map (\<lambda>k. item_at l k @ [NL]) [i + 1..<count l])"
      using 1 True by simp
    also have "\<dots> = f @ concat (map (\<lambda>k. item_at l k @ [NL]) [i..<count l])"
      using True by (simp add: upt_conv_Cons)
    finally show ?thesis .
  next
    case False
    then show ?thesis by (subst write_rows.simps) simp
  qed
qed

lemma write_rows_file: "write_rows l 0 [] = file_lines (list_items l)"
  by (simp add: write_rows_eq file_lines_def list_items_def comp_def)

lemma save_to_file_ok:
  "wfile e filename = None \<Longrightarrow>
   rfile (save_to_file l filename e) filename = Inr (file_lines (list_items l)) \<and>
   heap (save_to_file l filename e) = heap e"
  by (simp add: save_to_file_def printf_def write_rows_file)

subsection \<open>The loop of load_from_file\<close>

lemma char0_NUL: "NUL \<notin> set s \<Longrightarrow> (char0 s = NUL) = (s = [])"
  by (cases s) (auto simp: char0_def)

lemma load_lines_eof: "load_lines l [] e = Ret l e"
  by (subst load_lines.simps) (simp add: fgets_def)

lemma load_lines_blank:
  assumes "fgets BUFFER_SIZE f = Some (chunk, rest)" and "rtrim (cstr chunk) = []"
  shows "load_lines l f e = load_lines l rest e"
  using assms by (subst load_lines.simps) (simp add: char0_def)

lemma load_lines_add:
  assumes "fgets BUFFER_SIZE f = Some (chunk, rest)" and "rtrim (cstr chunk) = s" and "s \<noteq> []"
  shows "load_lines l f e =
           (case add_item l s e of Exit c e1 \<Rightarrow> Exit c e1 | Ret l1 e1 \<Rightarrow> load_lines l1 rest e1)"
proof -
  have "NUL \<notin> set s" using assms(2) rtrim_set cstr_no_NUL by blast
  then have "char0 s \<noteq> NUL" using assms(3) by (simp add: char0_NUL)
  then show ?thesis using assms(1,2) by (subst load_lines.simps) simp
qed

lemma load_lines_newline: "load_lines l (NL # tl_f) e = load_lines l tl_f e"
proof -
  have "fgets BUFFER_SIZE ([] @ NL # tl_f) = Some ([] @ [NL], tl_f)"
    by (rule fgets_line) (simp_all add: BUFFER_SIZE_def)
  moreover have "rtrim (cstr [NL]) = []"
    by (simp add: cstr_def rtrim_blank trailing_def)
  ultimately show ?thesis using load_lines_blank [of "NL # tl_f" "[NL]" tl_f] by simp
qed

lemma load_lines_item:
  assumes "plain_item s"
  shows "load_lines l (s @ NL # tl_f) e =
           (case add_item l s e of Exit c e1 \<Rightarrow> Exit c e1 | Ret l1 e1 \<Rightarrow> load_lines l1 tl_f e1)"
proof (cases "length s < BUFFER_SIZE - 1")
  case True
  have fg: "fgets BUFFER_SIZE (s @ NL # tl_f) = Some (s @ [NL], tl_f)"
    using assms True by (intro fgets_line) (simp_all add: plain_item_def)
  have "cstr (s @ [NL]) = s @ [NL]" using assms by (intro cstr_id) (simp add: plain_item_def)
  moreover have "rtrim (s @ [NL]) = s"
    using assms by (simp add: rtrim_snoc trailing_def rtrim_keep plain_item_def)
  ultimately have "rtrim (cstr (s @ [NL])) = s" by simp
  from load_lines_add [OF fg this] assms show ?thesis by (simp add: plain_item_def)
next
  case False
  then have len: "length s = BUFFER_SIZE - 1" using assms by (simp add: plain_item_def)
  have fg: "fgets BUFFER_SIZE (s @ NL # tl_f) = Some (s, NL # tl_f)"
    using assms len by (intro fgets_full) (simp_all add: plain_item_def)
  have "rtrim (cstr s) = s"
    using assms by (simp add: cstr_id rtrim_keep plain_item_def)
  from load_lines_add [OF fg this] assms show ?thesis
    by (simp add: plain_item_def load_lines_newline cong: result.case_cong)
qed

lemma load_lines_saved:
  "list_all plain_item xs \<Longrightarrow> wf_list l \<Longrightarrow> 2 * length xs \<le> heap e \<Longrightarrow>
   \<exists>l' h. load_lines l (file_lines xs) e = Ret l' (e\<lparr>heap := h\<rparr>) \<and> wf_list l' \<and>
          list_items l' = list_items l @ xs \<and> heap e - 2 * length xs \<le> h \<and> h \<le> heap e"
proof (induction xs arbitrary: l e)
  case Nil
  show ?case
    using Nil by (intro exI [of _ l] exI [of _ "heap e"]) (simp add: file_lines_def load_lines_eof)
next
  case (Cons s xs)
  have s: "plain_item s" and xs: "list_all plain_item xs" using Cons.prems(1) by simp_all
  have c0: "char0 s \<noteq> NUL" using s by (simp add: plain_item_def char0_NUL)
  have "2 \<le> heap e" using Cons.prems(3) by simp
  from add_item_enough [OF Cons.prems(2) c0 this]
  obtain l1 h1 where a: "add_item l s e = Ret l1 (e\<lparr>heap := h1\<rparr>)" and wf1: "wf_list l1"
    and li1: "list_items l1 = list_items l @ [s]" and h1: "heap e - 2 \<le> h1" "h1 < heap e"
    by blast
  have "2 * length xs \<le> heap (e\<lparr>heap := h1\<rparr>)" using h1 Cons.prems(3) by simp
  from Cons.IH [OF xs wf1 this]
  obtain l' h where r: "load_lines l1 (file_lines xs) (e\<lparr>heap := h1\<rparr>) = Ret l' (e\<lparr>heap := h\<rparr>)"
    and wf': "wf_list l'" and li': "list_items l' = list_items l1 @ xs"
    and h: "h1 - 2 * length xs \<le> h" "h \<le> h1"
    by auto
  have "file_lines (s # xs) = s @ NL # file_lines xs" by (simp add: file_lines_def)
  then have "load_lines l (file_lines (s # xs)) e = Ret l' (e\<lparr>heap := h\<rparr>)"
    using load_lines_item [OF s, of l "file_lines xs" e] a r by simp
  moreover have "heap e - 2 * length (s # xs) \<le> h" using h h1 by simp
  moreover have "h \<le> heap e" using h h1 by simp
  ultimately show ?case using wf' li' li1 by auto
qed

subsection \<open>A fresh list\<close>

lemma create_list_fresh:
  "2 \<le> heap e \<Longrightarrow> create_list e = Ret fresh_list (e\<lparr>heap := heap e - 2\<rparr>)"
  by (auto simp: create_list_def alloc_def fresh_list_def)

lemma fresh_list_wf: "wf_list fresh_list \<and> list_items fresh_list = []"
  by (simp add: wf_list_def fresh_list_def list_items_def INITIAL_CAPACITY_def)

lemma fgets_read_Cons:
  "0 < k \<Longrightarrow> fgets_read k (c # cs) =
     (if c = NL then ([c], cs) else (case fgets_read (k - 1) cs of (b, r) \<Rightarrow> (c # b, r)))"
  by (cases k) simp_all

subsection \<open>The loops of main, one line at a time\<close>

lemma next_line_None: "next_line inp = None \<longleftrightarrow> inp = []"
  by (auto simp: next_line_def fgets_def split: option.splits prod.splits)

lemma main_loop_eof: "main_loop l [] e = main_done l (printf prompt_item e)"
  by (subst main_loop.simps) (simp add: fgets_def)

lemma confirm_loop_eof: "confirm_loop l [] e = main_done l (printf prompt_more e)"
  by (subst confirm_loop.simps) (simp add: fgets_def)

lemma main_loop_line:
  "next_line inp = Some (buf, rest) \<Longrightarrow>
   main_loop l inp e =
     (if char0 buf = NUL then main_loop l rest (printf (''(no input)'' @ [NL]) (printf prompt_item e))
      else
        (case try_handle_command l buf (printf prompt_item e) of
           Exit c e1 \<Rightarrow> (c, e1)
         | Ret (r, l1) e1 \<Rightarrow>
             if r \<noteq> 0 then main_loop l1 rest e1
             else
               (case add_item l1 buf e1 of
                  Exit c e2 \<Rightarrow> (c, e2)
                | Ret l2 e2 \<Rightarrow> confirm_loop l2 rest (printf (''Added: '' @ buf @ [NL]) e2))))"
proof -
  assume "next_line inp = Some (buf, rest)"
  then obtain chunk where fg: "fgets BUFFER_SIZE inp = Some (chunk, rest)"
    and b: "rtrim (cstr chunk) = buf"
    by (auto simp: next_line_def split: option.splits prod.splits)
  show ?thesis unfolding b [symmetric] by (subst main_loop.simps) (simp add: fg Let_def)
qed

lemma confirm_loop_line:
  "next_line inp = Some (buf, rest) \<Longrightarrow>
   confirm_loop l inp e =
     (if char0 buf = NUL
      then confirm_loop l rest (printf (''Please answer y or n.'' @ [NL]) (printf prompt_more e))
      else if char0 buf = CHR ''y'' \<or> char0 buf = CHR ''Y'' then main_loop l rest (printf prompt_more e)
      else if char0 buf = CHR ''n'' \<or> char0 buf = CHR ''N'' then main_done l (printf prompt_more e)
      else if char0 buf = CHR ''/'' then
        (case try_handle_command l buf (printf prompt_more e) of
           Exit c e1 \<Rightarrow> (c, e1)
         | Ret (r, l1) e1 \<Rightarrow>
             if r \<noteq> 0 then confirm_loop l1 rest e1
             else confirm_loop l1 rest
                    (printf (''Please answer y or n or enter a command starting with /.''
                               @ [NL]) e1))
      else confirm_loop l rest
             (printf (''Please answer y or n. You can also use /view, /save, /help, etc.''
                        @ [NL]) (printf prompt_more e)))"
proof -
  assume "next_line inp = Some (buf, rest)"
  then obtain chunk where fg: "fgets BUFFER_SIZE inp = Some (chunk, rest)"
    and b: "rtrim (cstr chunk) = buf"
    by (auto simp: next_line_def split: option.splits prod.splits)
  show ?thesis unfolding b [symmetric] by (subst confirm_loop.simps) (simp add: fg Let_def)
qed

subsection \<open>Lines that are commands\<close>

lemma not_a_command: "char0 input \<noteq> CHR ''/'' \<Longrightarrow> try_handle_command l input e = Ret (0, l) e"
  by (simp add: try_handle_command_def)

lemma strtok_first:
  "s \<noteq> [] \<Longrightarrow> hd s \<notin> set delims \<Longrightarrow>
   \<exists>cmd nxt. strtok s delims = Some (cmd, nxt) \<and> cmd \<noteq> [] \<and> hd cmd = hd s"
  by (cases s) (auto simp: strtok_def)

lemma add_item_exit: "add_item l item e = Exit c e' \<Longrightarrow> c = EXIT_FAILURE"
  by (auto simp: add_item_def ensure_capacity_def out_of_memory_def
      split: if_splits option.splits result.splits)

lemma load_lines_induct [case_names eof blank add]:
  assumes "\<And>l e. P l [] e"
    and "\<And>l f e chunk rest. fgets BUFFER_SIZE f = Some (chunk, rest) \<Longrightarrow>
           rtrim (cstr chunk) = [] \<Longrightarrow> P l rest e \<Longrightarrow> P l f e"
    and "\<And>l f e chunk rest. fgets BUFFER_SIZE f = Some (chunk, rest) \<Longrightarrow>
           rtrim (cstr chunk) \<noteq> [] \<Longrightarrow> (\<And>l1 e1. P l1 rest e1) \<Longrightarrow> P l f e"
  shows "P l f e"
proof (induction "length f" arbitrary: l f e rule: less_induct)
  case less
  show ?case
  proof (cases "fgets BUFFER_SIZE f")
    case None
    then have "f = []" by (simp add: fgets_def split: if_splits)
    then show ?thesis using assms(1) by simp
  next
    case (Some p)
    obtain chunk rest where p: "p = (chunk, rest)" by (cases p)
    have fg: "fgets BUFFER_SIZE f = Some (chunk, rest)" using Some p by simp
    have "length rest < length f" using fg by (rule fgets_shorter)
    then have ih: "\<And>l1 e1. P l1 rest e1" using less by blast
    show ?thesis
    proof (cases "rtrim (cstr chunk) = []")
      case True
      from assms(2) [OF fg True ih] show ?thesis .
    next
      case False
      from assms(3) [OF fg False ih] show ?thesis .
    qed
  qed
qed

lemma load_lines_exit: "load_lines l f e = Exit c e' \<Longrightarrow> c = EXIT_FAILURE"
proof (induction l f e rule: load_lines_induct)
  case (eof l e)
  then show ?case by (simp add: load_lines_eof)
next
  case (blank l f e chunk rest)
  then show ?case by (simp add: load_lines_blank)
next
  case (add l f e chunk rest)
  from add(4) load_lines_add [OF add(1) refl add(2), of l e]
  have "(case add_item l (rtrim (cstr chunk)) e of Exit c e1 \<Rightarrow> Exit c e1
         | Ret l1 e1 \<Rightarrow> load_lines l1 rest e1) = Exit c e'" by simp
  then show ?case
    by (cases "add_item l (rtrim (cstr chunk)) e") (auto dest: add_item_exit add(3))
qed

lemma load_from_file_exit: "load_from_file l f e = Exit c e' \<Longrightarrow> c = EXIT_FAILURE"
  by (cases "rfile e f"; cases "load_lines l (projr (rfile e f)) e")
     (auto simp: load_from_file_def dest: load_lines_exit)

lemma handled_Ret: "handled e (Ret (1, l') e')"
  by (simp add: handled_def)

lemma handled_load:
  "handled e (case load_from_file l arg e of Exit c e1 \<Rightarrow> Exit c e1 | Ret l1 e1 \<Rightarrow> Ret (1, l1) e1)"
  by (cases "load_from_file l arg e") (auto simp: handled_def dest: load_from_file_exit)

lemma handled_pair: "handled e (case p of (l1, e1) \<Rightarrow> Ret (1, l1) (g e1))"
  by (cases p) (simp add: handled_def)

lemma command_handled:
  assumes "char0 input = CHR ''/''"
  shows "handled e (try_handle_command l input e)"
proof -
  obtain cs where i: "input = CHR ''/'' # cs"
    using assms by (cases input) (auto simp: char0_def)
  have "take (BUFFER_SIZE - 1) input \<noteq> []" "hd (take (BUFFER_SIZE - 1) input) \<notin> set delims"
    using i by (simp_all add: BUFFER_SIZE_def delims_def)
  then obtain cmd nxt where tok: "strtok (take (BUFFER_SIZE - 1) input) delims = Some (cmd, nxt)"
    using strtok_first by blast
  have h1: "handled e (case remove_item l k e of (l1, e1) \<Rightarrow> Ret (1, l1) e1)" for k
    using handled_pair [where p = "remove_item l k e" and g = "\<lambda>x. x"] by simp
  have c: "char0 input \<noteq> CHR ''/'' \<longleftrightarrow> False" using assms by simp
  note defs = try_handle_command_def c tok Let_def if_False option.case prod.case
  consider "cmd = ''/view''" | "cmd = ''/remove''" | "cmd = ''/save''" | "cmd = ''/load''"
    | "cmd = ''/clear''" | "cmd = ''/help''" | "cmd = ''/quit''"
    | "cmd \<noteq> ''/view''" "cmd \<noteq> ''/remove''" "cmd \<noteq> ''/save''" "cmd \<noteq> ''/load''"
      "cmd \<noteq> ''/clear''" "cmd \<noteq> ''/help''" "cmd \<noteq> ''/quit''"
    by blast
  then show ?thesis
  proof cases
    case 1
    then show ?thesis unfolding defs by (simp add: handled_Ret)
  next
    case 2
    then show ?thesis unfolding defs
      by (cases "strtok nxt delims") (auto simp: handled_Ret h1)
  next
    case 3
    then show ?thesis unfolding defs
      by (cases "strtok nxt delims") (auto simp: handled_Ret)
  next
    case 4
    then show ?thesis unfolding defs
      by (cases "strtok nxt delims") (auto simp: handled_Ret handled_load)
  next
    case 5
    then show ?thesis unfolding defs by (simp add: handled_pair)
  next
    case 6
    then show ?thesis unfolding defs by (simp add: handled_Ret)
  next
    case 7
    then show ?thesis unfolding defs by (simp add: handled_def)
  next
    case 8
    then show ?thesis unfolding defs by (simp add: handled_Ret)
  qed
qed

subsection \<open>Commands with an argument\<close>

lemma cmd_arg_tokens:
  "cmd_arg input = Some (cmd, Some arg) \<Longrightarrow>
   \<exists>nxt rest. strtok (take (BUFFER_SIZE - 1) input) delims = Some (cmd, nxt) \<and>
              strtok nxt delims = Some (arg, rest)"
  by (auto simp: cmd_arg_def split: option.splits prod.splits)

lemma cmd_arg_token:
  "cmd_arg input = Some (cmd, a) \<Longrightarrow>
   \<exists>nxt. strtok (take (BUFFER_SIZE - 1) input) delims = Some (cmd, nxt)"
  by (auto simp: cmd_arg_def split: option.splits prod.splits)


lemma cmd_save:
  assumes "char0 input = CHR ''/''" and "cmd_arg input = Some (''/save'', Some arg)"
  shows "try_handle_command l input e = Ret (1, l) (save_to_file l arg e)"
proof -
  from cmd_arg_tokens [OF assms(2)] obtain nxt rest
    where "strtok (take (BUFFER_SIZE - 1) input) delims = Some (''/save'', nxt)"
      and "strtok nxt delims = Some (arg, rest)" by blast
  then show ?thesis using assms(1) by (simp add: try_handle_command_def Let_def)
qed

lemma cmd_load:
  assumes "char0 input = CHR ''/''" and "cmd_arg input = Some (''/load'', Some arg)"
  shows "try_handle_command l input e =
           (case load_from_file l arg e of Exit c e1 \<Rightarrow> Exit c e1 | Ret l1 e1 \<Rightarrow> Ret (1, l1) e1)"
proof -
  from cmd_arg_tokens [OF assms(2)] obtain nxt rest
    where "strtok (take (BUFFER_SIZE - 1) input) delims = Some (''/load'', nxt)"
      and "strtok nxt delims = Some (arg, rest)" by blast
  then show ?thesis using assms(1) by (simp add: try_handle_command_def Let_def)
qed

lemma cmd_unknown:
  assumes "char0 input = CHR ''/''" and "cmd_arg input = Some (cmd, a)"
    and "cmd \<notin> set [''/view'', ''/remove'', ''/save'', ''/load'', ''/clear'', ''/help'', ''/quit'']"
  shows "try_handle_command l input e =
           Ret (1, l) (printf (''Unknown command. Type /help for commands.'' @ [NL]) e)"
proof -
  from cmd_arg_token [OF assms(2)] obtain nxt
    where "strtok (take (BUFFER_SIZE - 1) input) delims = Some (cmd, nxt)" by blast
  then show ?thesis using assms(1,3) by (simp add: try_handle_command_def Let_def)
qed

subsection \<open>strtol\<close>






subsection \<open>Files that cannot be opened\<close>

lemma save_open_failure:
  "wfile e filename = Some reason \<Longrightarrow>
   save_to_file l filename e = perror ''Failed to open file'' reason e"
  by (simp add: save_to_file_def)

lemma load_open_failure:
  "rfile e filename = Inl reason \<Longrightarrow>
   load_from_file l filename e = Ret l (perror ''Failed to open file'' reason e)"
  by (simp add: load_from_file_def)

lemma printf_files: "wfile (printf s e) = wfile e" "rfile (printf s e) = rfile e"
  by (simp_all add: printf_def)

subsection \<open>What the operations do to the sequence of items\<close>

lemma blank_line: "\<forall>c\<in>set line. isspace c \<Longrightarrow> rtrim (cstr line) = []"
proof -
  assume a: "\<forall>c\<in>set line. isspace c"
  have "set (cstr line) \<subseteq> set line" unfolding cstr_def by (auto dest: set_takeWhileD)
  then have "\<forall>c\<in>set (cstr line). trailing c" using a by (auto simp: trailing_isspace)
  then show ?thesis by (rule rtrim_blank)
qed

lemma fgets_chunk:
  assumes "fgets BUFFER_SIZE f = Some (chunk, rest)"
  shows "f = chunk @ rest" and "length chunk \<le> BUFFER_SIZE - 1" and "NL \<notin> set (butlast chunk)"
    and "chunk \<noteq> []"
proof -
  have r: "fgets_read (BUFFER_SIZE - 1) f = (chunk, rest)" and ne: "f \<noteq> []"
    using assms by (auto simp: fgets_def split: if_splits)
  from fgets_read_split [OF r] show "f = chunk @ rest" "length chunk \<le> BUFFER_SIZE - 1" by simp_all
  from fgets_read_NL [OF r] show "NL \<notin> set (butlast chunk)" .
  have "length rest < length f" using assms by (rule fgets_shorter)
  then show "chunk \<noteq> []" using \<open>f = chunk @ rest\<close> by auto
qed

lemma fgets_item_plain:
  assumes "fgets BUFFER_SIZE f = Some (chunk, rest)" and ne: "rtrim (cstr chunk) \<noteq> []"
  shows "plain_item (rtrim (cstr chunk))"
proof -
  let ?b = "rtrim (cstr chunk)"
  obtain t where t: "cstr chunk = ?b @ t" using rtrim_split by blast
  obtain u where u: "chunk = cstr chunk @ u" using cstr_prefix by blast
  note u
  also note t
  finally have ch: "chunk = (?b @ t) @ u" .
  have eq: "butlast ((?b @ t) @ u) = butlast chunk" by (rule arg_cong [OF ch [symmetric]])
  have last: "\<not> trailing (last ?b)" using ne by (rule rtrim_last)
  have nul: "NUL \<notin> set ?b" using rtrim_set cstr_no_NUL by blast
  have "length ?b \<le> length chunk" using rtrim_length cstr_length order_trans by blast
  then have len: "length ?b \<le> BUFFER_SIZE - 1" using fgets_chunk(2) [OF assms(1)] by simp
  have sub: "set (butlast ?b) \<subseteq> set (butlast ((?b @ t) @ u))"
    by (auto simp: butlast_append dest: in_set_butlastD)
  have "NL \<notin> set ?b"
  proof
    assume "NL \<in> set ?b"
    moreover have "last ?b \<noteq> NL" using last by (auto simp: trailing_def)
    moreover have "set ?b = insert (last ?b) (set (butlast ?b))"
      using ne by (cases ?b rule: rev_cases) auto
    ultimately have "NL \<in> set (butlast ?b)" by auto
    with sub have "NL \<in> set (butlast ((?b @ t) @ u))" by (rule subsetD)
    then have "NL \<in> set (butlast chunk)" by (simp only: eq)
    then show False using fgets_chunk(3) [OF assms(1)] by simp
  qed
  then show ?thesis using ne last nul len by (simp add: plain_item_def)
qed

lemma next_line_plain:
  assumes "next_line inp = Some (buf, rest)" and "buf \<noteq> []"
  shows "plain_item buf"
proof -
  from assms(1) obtain chunk where "fgets BUFFER_SIZE inp = Some (chunk, rest)"
    and "rtrim (cstr chunk) = buf"
    by (auto simp: next_line_def split: option.splits prod.splits)
  then show ?thesis using fgets_item_plain assms(2) by blast
qed

lemma add_item_result:
  assumes "wf_list l" and "add_item l item e = Ret l' e'"
  shows "wf_list l' \<and> (list_items l' = list_items l \<or> (item \<noteq> [] \<and> list_items l' = list_items l @ [item]))"
proof (cases "char0 item = NUL")
  case True
  then show ?thesis using assms by (simp add: add_item_empty)
next
  case False
  then have "item \<noteq> []" by (auto simp: char0_def)
  then show ?thesis using add_item_cases [OF assms(1) False, of e] assms(2) by auto
qed

lemma remove_item_result:
  assumes "wf_list l"
  shows "wf_list (fst (remove_item l i e)) \<and>
         set (list_items (fst (remove_item l i e))) \<subseteq> set (list_items l)"
proof (cases "i < count l")
  case True
  from remove_item_valid [OF assms True, of e] obtain l' where
    "remove_item l i e = (l', e)" "wf_list l'"
    "list_items l' = take i (list_items l) @ drop (i + 1) (list_items l)" by (elim exE conjE)
  then show ?thesis by (auto dest: in_set_takeD in_set_dropD)
next
  case False
  then show ?thesis using assms by (simp add: remove_item_invalid)
qed

lemma clear_items_result:
  "wf_list l \<Longrightarrow> \<exists>l'. clear_items l e = (l', e) \<and> wf_list l' \<and> count l' = 0"
proof (induction "count l" arbitrary: l rule: less_induct)
  case less
  show ?case
  proof (cases "count l = 0")
    case True
    then show ?thesis using less.prems by (subst clear_items.simps) simp
  next
    case False
    then have "0 < count l" by simp
    from remove_item_valid [OF less.prems this, of e] obtain l1 where
      r: "remove_item l 0 e = (l1, e)" and wf1: "wf_list l1" and c: "count l1 + 1 = count l"
      by (elim exE conjE)
    have "count l1 < count l" using c by simp
    from less.hyps [OF this wf1] obtain l' where
      "clear_items l1 e = (l', e)" "wf_list l'" "count l' = 0" by blast
    then show ?thesis using False r by (subst clear_items.simps) simp
  qed
qed

lemma load_lines_result:
  "wf_list l \<Longrightarrow> load_lines l f e = Ret l' e' \<Longrightarrow>
   wf_list l' \<and> (\<exists>xs. list_items l' = list_items l @ xs \<and> list_all plain_item xs)"
proof (induction l f e rule: load_lines_induct)
  case (eof l e)
  then show ?case by (simp add: load_lines_eof)
next
  case (blank l f e chunk rest)
  then show ?case by (simp add: load_lines_blank)
next
  case (add l f e chunk rest)
  let ?b = "rtrim (cstr chunk)"
  have pl: "plain_item ?b" using add(1,2) by (rule fgets_item_plain)
  from add(5) load_lines_add [OF add(1) refl add(2), of l e]
  have eq: "(case add_item l ?b e of Exit c e1 \<Rightarrow> Exit c e1
         | Ret l1 e1 \<Rightarrow> load_lines l1 rest e1) = Ret l' e'" by simp
  show ?case
  proof (cases "add_item l ?b e")
    case (Exit c e1)
    then show ?thesis using eq by simp
  next
    case (Ret l1 e1)
    then have ll: "load_lines l1 rest e1 = Ret l' e'" using eq by simp
    from add_item_result [OF add(4) Ret] add(2)
    have wf1: "wf_list l1" and li1: "list_items l1 = list_items l \<or> list_items l1 = list_items l @ [?b]"
      by auto
    from add(3) [OF wf1 ll] obtain xs where
      wf': "wf_list l'" and xs: "list_items l' = list_items l1 @ xs" "list_all plain_item xs"
      by blast
    from li1 show ?thesis
    proof
      assume "list_items l1 = list_items l"
      then show ?thesis using wf' xs by auto
    next
      assume "list_items l1 = list_items l @ [?b]"
      then have "list_items l' = list_items l @ (?b # xs)" using xs(1) by simp
      moreover have "list_all plain_item (?b # xs)" using pl xs(2) by simp
      ultimately show ?thesis using wf' by blast
    qed
  qed
qed

lemma load_from_file_result:
  assumes "wf_list l" and "load_from_file l filename e = Ret l' e'"
  shows "wf_list l' \<and> (\<exists>xs. list_items l' = list_items l @ xs \<and> list_all plain_item xs)"
proof (cases "rfile e filename")
  case (Inl reason)
  then have "l' = l" using assms(2) by (simp add: load_open_failure)
  then show ?thesis using assms(1) by auto
next
  case (Inr f)
  then obtain e1 where "load_lines l f e = Ret l' e1"
    using assms(2) by (cases "load_lines l f e") (auto simp: load_from_file_def)
  from load_lines_result [OF assms(1) this] show ?thesis .
qed

lemma items_nonempty_append:
  "wf_list l' \<Longrightarrow> list_items l' = list_items l @ xs \<Longrightarrow> items_nonempty l \<Longrightarrow>
   list_all (\<lambda>s. s \<noteq> []) xs \<Longrightarrow> items_nonempty l'"
  by (simp add: items_nonempty_def)

lemma plain_items_nonempty: "list_all plain_item xs \<Longrightarrow> list_all (\<lambda>s. s \<noteq> []) xs"
  by (induction xs) (auto simp: plain_item_def)

subsection \<open>Running the loops\<close>

lemma first_char_kept:
  assumes "char0 line = c" and "c \<noteq> NUL" and "\<not> trailing c"
  shows "char0 (rtrim (cstr line)) = c"
proof -
  obtain cs where l: "line = c # cs" using assms(1,2) by (cases line) (auto simp: char0_def)
  have cs: "cstr line = c # cstr cs" using assms(2) l by (simp add: cstr_def)
  obtain t where t: "c # cstr cs = rtrim (c # cstr cs) @ t" "\<forall>x\<in>set t. trailing x"
    using rtrim_split by blast
  have "rtrim (c # cstr cs) \<noteq> []"
  proof
    assume "rtrim (c # cstr cs) = []"
    then have "c # cstr cs = t" using t(1) by simp
    then have "c \<in> set t" by (metis list.set_intros(1))
    then show False using t(2) assms(3) by blast
  qed
  then obtain b bs where b: "rtrim (c # cstr cs) = b # bs" by (cases "rtrim (c # cstr cs)") auto
  then have "c # cstr cs = (b # bs) @ t" using t(1) by simp
  then have "b = c" by simp
  then show ?thesis using b cs by (simp add: char0_def)
qed

lemma main_loop_next:
  "main_loop l inp e =
     (case next_line inp of
        None \<Rightarrow> main_done l (printf prompt_item e)
      | Some (buf, rest) \<Rightarrow>
          if char0 buf = NUL
          then main_loop l rest (printf (''(no input)'' @ [NL]) (printf prompt_item e))
          else
            (case try_handle_command l buf (printf prompt_item e) of
               Exit c e1 \<Rightarrow> (c, e1)
             | Ret (r, l1) e1 \<Rightarrow>
                 if r \<noteq> 0 then main_loop l1 rest e1
                 else
                   (case add_item l1 buf e1 of
                      Exit c e2 \<Rightarrow> (c, e2)
                    | Ret l2 e2 \<Rightarrow> confirm_loop l2 rest (printf (''Added: '' @ buf @ [NL]) e2))))"
proof (cases "next_line inp")
  case None
  then have "inp = []" by (simp add: next_line_None)
  then show ?thesis unfolding None option.case by (simp add: main_loop_eof)
next
  case (Some p)
  then show ?thesis by (cases p) (simp add: main_loop_line)
qed

lemma confirm_loop_next:
  "confirm_loop l inp e =
     (case next_line inp of
        None \<Rightarrow> main_done l (printf prompt_more e)
      | Some (buf, rest) \<Rightarrow>
          if char0 buf = NUL
          then confirm_loop l rest (printf (''Please answer y or n.'' @ [NL]) (printf prompt_more e))
          else if char0 buf = CHR ''y'' \<or> char0 buf = CHR ''Y'' then main_loop l rest (printf prompt_more e)
          else if char0 buf = CHR ''n'' \<or> char0 buf = CHR ''N'' then main_done l (printf prompt_more e)
          else if char0 buf = CHR ''/'' then
            (case try_handle_command l buf (printf prompt_more e) of
               Exit c e1 \<Rightarrow> (c, e1)
             | Ret (r, l1) e1 \<Rightarrow>
                 if r \<noteq> 0 then confirm_loop l1 rest e1
                 else confirm_loop l1 rest
                        (printf (''Please answer y or n or enter a command starting with /.''
                                   @ [NL]) e1))
          else confirm_loop l rest
                 (printf (''Please answer y or n. You can also use /view, /save, /help, etc.''
                            @ [NL]) (printf prompt_more e)))"
proof (cases "next_line inp")
  case None
  then have "inp = []" by (simp add: next_line_None)
  then show ?thesis unfolding None option.case by (simp add: confirm_loop_eof)
next
  case (Some p)
  then show ?thesis by (cases p) (simp add: confirm_loop_line)
qed

lemma alloc_ok: "0 < heap e \<Longrightarrow> alloc e = Some (e\<lparr>heap := heap e - 1\<rparr>)"
  by (simp add: alloc_def)

lemmas run_simps =
  main_def main_loop_next confirm_loop_next main_done_def next_line_def fgets_def BUFFER_SIZE_def
  fgets_read_Cons cstr_def rtrim.simps trailing_def isspace_def char0_def not_a_command
  create_list_def add_item_def ensure_capacity_def alloc_ok INITIAL_CAPACITY_def
  print_list_def print_rows.simps item_at_def show_nat.simps digit_char_def printf_def
  eval_nat_numeral

lemma milk_eggs_run:
  assumes "4 \<le> heap e"
  shows "main (''milk'' @ [NL] @ ''y'' @ [NL] @ ''eggs'' @ [NL] @ ''n'' @ [NL]) e =
     (0, e\<lparr>heap := heap e - 4,
           out := out e @ ''Welcome to Usagi'' @ [CHR 0x27] @ ''s Shopping List!'' @ [NL]
                  @ ''Type an item to add it. Type /help for commands.'' @ [NL, NL]
                  @ prompt_item @ ''Added: milk'' @ [NL]
                  @ prompt_more
                  @ prompt_item @ ''Added: eggs'' @ [NL]
                  @ prompt_more
                  @ [NL] @ ''Final list:'' @ [NL]
                  @ ''Your shopping list:'' @ [NL] @ ''1. milk'' @ [NL] @ ''2. eggs'' @ [NL]\<rparr>)"
  using assms by (simp add: run_simps)

lemma confirm_answer:
  assumes "fgets BUFFER_SIZE inp = Some (line, rest)" and "char0 line = c"
    and "c \<in> set ''yYnN''"
  shows "confirm_loop l inp e =
           (if c = CHR ''y'' \<or> c = CHR ''Y'' then main_loop l rest (printf prompt_more e)
            else main_done l (printf prompt_more e))"
proof -
  have "c \<noteq> NUL" "\<not> trailing c" using assms(3) by (auto simp: trailing_def isspace_def)
  from first_char_kept [OF assms(2) this]
  have k: "char0 (rtrim (cstr line)) = c" .
  have "next_line inp = Some (rtrim (cstr line), rest)" using assms(1) by (simp add: next_line_def)
  from confirm_loop_line [OF this] k assms(3) show ?thesis by auto
qed

subsection \<open>Lines longer than the buffer\<close>

lemma fgets_read_long:
  "NL \<notin> set (take k s) \<Longrightarrow> k \<le> length s \<Longrightarrow> fgets_read k s = (take k s, drop k s)"
proof (induction k s rule: fgets_read.induct)
  case (3 k c cs)
  then show ?case by auto
qed auto

lemma fgets_long:
  assumes "NL \<notin> set s" and "BUFFER_SIZE - 1 \<le> length s"
  shows "fgets BUFFER_SIZE (s @ rest)
           = Some (take (BUFFER_SIZE - 1) s, drop (BUFFER_SIZE - 1) s @ rest)"
proof -
  have "NL \<notin> set (take (BUFFER_SIZE - 1) (s @ rest))"
    using assms by (auto dest: in_set_takeD)
  moreover have "BUFFER_SIZE - 1 \<le> length (s @ rest)" using assms(2) by simp
  ultimately have "fgets_read (BUFFER_SIZE - 1) (s @ rest)
      = (take (BUFFER_SIZE - 1) (s @ rest), drop (BUFFER_SIZE - 1) (s @ rest))"
    by (rule fgets_read_long)
  moreover have "s @ rest \<noteq> []" using assms(2) by (auto simp: BUFFER_SIZE_def)
  ultimately show ?thesis using assms(2) by (simp add: fgets_def)
qed

lemma load_lines_chunk:
  assumes "fgets BUFFER_SIZE f = Some (chunk, rest)"
  shows "load_lines l f e =
           (if rtrim (cstr chunk) = [] then load_lines l rest e
            else (case add_item l (rtrim (cstr chunk)) e of
                    Exit c e1 \<Rightarrow> Exit c e1
                  | Ret l1 e1 \<Rightarrow> load_lines l1 rest e1))"
  using load_lines_blank [OF assms] load_lines_add [OF assms refl] by auto

lemma load_lines_count:
  assumes "wf_list l" and "load_lines l f e = Ret l' e'"
  shows "count l \<le> count l'"
proof -
  from load_lines_result [OF assms] obtain xs where "list_items l' = list_items l @ xs" by blast
  then have "length (list_items l') = length (list_items l) + length xs" by simp
  then show ?thesis by (simp add: list_items_length)
qed

lemma rtrim_empty_blank: "rtrim s = [] \<Longrightarrow> \<forall>c\<in>set s. isspace c"
proof -
  assume e: "rtrim s = []"
  obtain t where t: "s = rtrim s @ t" "\<forall>c\<in>set t. trailing c" using rtrim_split by blast
  have "s = t" using t(1) unfolding e by simp
  then show ?thesis using t(2) by (simp add: trailing_isspace)
qed

lemma load_lines_visible:
  "wf_list l \<Longrightarrow> NUL \<notin> set f \<Longrightarrow> \<exists>c\<in>set f. \<not> isspace c \<Longrightarrow>
   load_lines l f e = Ret l' e' \<Longrightarrow> count l < count l'"
proof (induction l f e rule: load_lines_induct)
  case (eof l e)
  then show ?case by simp
next
  case (blank l f e chunk rest)
  have f: "f = chunk @ rest" using blank(1) by (rule fgets_chunk(1))
  then have "NUL \<notin> set chunk" and nr: "NUL \<notin> set rest" using blank(5) by auto
  then have "rtrim chunk = []" using blank(2) by (simp add: cstr_id)
  then have "\<forall>c\<in>set chunk. isspace c" by (rule rtrim_empty_blank)
  then have "\<exists>c\<in>set rest. \<not> isspace c" using blank(6) f by auto
  moreover have "load_lines l rest e = Ret l' e'"
    using blank(7) load_lines_blank [OF blank(1,2)] by simp
  ultimately show ?case using blank(3) [OF blank(4) nr] by blast
next
  case (add l f e chunk rest)
  let ?b = "rtrim (cstr chunk)"
  from add(7) load_lines_add [OF add(1) refl add(2), of l e]
  have eq: "(case add_item l ?b e of Exit c e1 \<Rightarrow> Exit c e1
         | Ret l1 e1 \<Rightarrow> load_lines l1 rest e1) = Ret l' e'" by simp
  show ?case
  proof (cases "add_item l ?b e")
    case (Exit c e1)
    then show ?thesis using eq by simp
  next
    case (Ret l1 e1)
    then have ll: "load_lines l1 rest e1 = Ret l' e'" using eq by simp
    have "NUL \<notin> set ?b" using rtrim_set cstr_no_NUL by blast
    then have "char0 ?b \<noteq> NUL" using add(2) by (simp add: char0_NUL)
    from add_item_cases [OF add(4) this, of e] Ret
    have "wf_list l1" "count l1 = count l + 1" by auto
    then show ?thesis using load_lines_count [OF _ ll] by simp
  qed
qed

lemma load_two_chunks:
  assumes a: "plain_item a" "length a = BUFFER_SIZE - 1"
    and t: "NL \<notin> set t" "NUL \<notin> set t" "length t < BUFFER_SIZE - 1"
  shows "load_lines l (a @ t @ [NL]) e =
           (case add_item l a e of
              Exit c e1 \<Rightarrow> Exit c e1
            | Ret l1 e1 \<Rightarrow>
                if rtrim t = [] then Ret l1 e1
                else (case add_item l1 (rtrim t) e1 of
                        Exit c e2 \<Rightarrow> Exit c e2
                      | Ret l2 e2 \<Rightarrow> Ret l2 e2))"
proof -
  have f1: "fgets BUFFER_SIZE (a @ (t @ [NL])) = Some (a, t @ [NL])"
    using a by (intro fgets_full) (simp_all add: plain_item_def)
  have r1: "rtrim (cstr a) = a" using a(1) by (simp add: plain_item_def cstr_id rtrim_keep)
  have ne: "a \<noteq> []" using a(1) by (simp add: plain_item_def)
  have f2: "fgets BUFFER_SIZE (t @ [NL]) = Some (t @ [NL], [])"
    using fgets_line [OF t(1,3), of "[]"] by simp
  have r2: "rtrim (cstr (t @ [NL])) = rtrim t"
    using t(2) by (simp add: cstr_id rtrim_snoc trailing_def)
  have second: "load_lines l1 (t @ [NL]) e1 =
      (if rtrim t = [] then Ret l1 e1
       else (case add_item l1 (rtrim t) e1 of
               Exit c e2 \<Rightarrow> Exit c e2
             | Ret l2 e2 \<Rightarrow> Ret l2 e2))" for l1 e1
    unfolding load_lines_chunk [OF f2] r2 by (simp add: load_lines_eof cong: result.case_cong)
  show ?thesis
    using load_lines_chunk [OF f1, of l e] ne unfolding r1
    by (simp add: second cong: result.case_cong)
qed

lemma plain_replicate:
  "0 < n \<Longrightarrow> n \<le> BUFFER_SIZE - 1 \<Longrightarrow> \<not> isspace c \<Longrightarrow> c \<noteq> NUL \<Longrightarrow> plain_item (replicate n c)"
  by (auto simp: plain_item_def trailing_isspace isspace_def)

lemma load_long_fresh:
  assumes a: "plain_item a" "length a = BUFFER_SIZE - 1"
    and t: "NL \<notin> set t" "NUL \<notin> set t" "length t < BUFFER_SIZE - 1"
    and h: "4 \<le> heap e" and rf: "rfile e filename = Inr (a @ t @ [NL])"
  shows "\<exists>l' e'. load_from_file fresh_list filename e = Ret l' e' \<and>
           list_items l' = (if rtrim t = [] then [a] else [a, rtrim t])"
proof -
  have c0: "char0 a \<noteq> NUL" using a(1) by (simp add: plain_item_def char0_NUL)
  have wf: "wf_list fresh_list" and li: "list_items fresh_list = []"
    using fresh_list_wf by simp_all
  have "2 \<le> heap e" using h by simp
  from add_item_enough [OF wf c0 this] obtain l1 h1 where
    a1: "add_item fresh_list a e = Ret l1 (e\<lparr>heap := h1\<rparr>)" and wf1: "wf_list l1"
    and li1: "list_items l1 = [a]" and h1: "heap e - 2 \<le> h1"
    using li by auto
  have "\<exists>l' e'. load_lines fresh_list (a @ t @ [NL]) e = Ret l' e' \<and>
           list_items l' = (if rtrim t = [] then [a] else [a, rtrim t])"
  proof (cases "rtrim t = []")
    case True
    then show ?thesis using load_two_chunks [OF a t, of fresh_list e] a1 li1 by simp
  next
    case False
    have "NUL \<notin> set (rtrim t)" using t(2) rtrim_set by blast
    then have c1: "char0 (rtrim t) \<noteq> NUL" using False by (simp add: char0_NUL)
    have "2 \<le> heap (e\<lparr>heap := h1\<rparr>)" using h h1 by simp
    from add_item_enough [OF wf1 c1 this] obtain l2 h2 where
      "add_item l1 (rtrim t) (e\<lparr>heap := h1\<rparr>) = Ret l2 (e\<lparr>heap := h1, heap := h2\<rparr>)"
      "list_items l2 = [a, rtrim t]"
      using li1 by auto
    then show ?thesis using load_two_chunks [OF a t, of fresh_list e] a1 False by simp
  qed
  then show ?thesis using rf by (auto simp: load_from_file_def)
qed

section \<open>The claims\<close>

subsection \<open>C1: removing an item\<close>

text \<open>
  C1: on a well-formed list, \<open>remove_item\<close> with an index below \<open>count\<close> deletes exactly
  the item at that position: the items before it stay where they are, every later item
  moves down by one position in the same order, and \<open>count\<close> decreases by exactly 1;
  nothing is printed. With an index at or beyond \<open>count\<close> the list is returned
  unchanged and "Invalid index" is printed.
\<close>

theorem remove_item_correct:
  assumes "wf_list l"
  shows "(index < count l \<longrightarrow>
           (\<exists>l'. remove_item l index e = (l', e) \<and> wf_list l' \<and>
              count l' + 1 = count l \<and> capacity l' = capacity l \<and>
              list_items l' = take index (list_items l) @ drop (index + 1) (list_items l) \<and>
              (\<forall>j<index. item_at l' j = item_at l j) \<and>
              (\<forall>j. index \<le> j \<and> j < count l' \<longrightarrow> item_at l' j = item_at l (j + 1)))) \<and>
         (count l \<le> index \<longrightarrow> remove_item l index e = (l, printf (''Invalid index'' @ [NL]) e))"
  using remove_item_valid [OF assms] remove_item_invalid by blast

theorem remove_item_correct_witness:
  "wf_list three_items \<and>
   (\<exists>l'. remove_item three_items 1 (quiet_env 0) = (l', quiet_env 0) \<and> count l' = 2 \<and>
         list_items l' = [''milk'', ''tea'']) \<and>
   remove_item three_items 3 (quiet_env 0)
     = (three_items, printf (''Invalid index'' @ [NL]) (quiet_env 0))"
proof -
  have wf: "wf_list three_items"
    by (simp add: wf_list_def three_items_def less_Suc_eq numeral_3_eq_3)
  have li: "list_items three_items = [''milk'', ''eggs'', ''tea'']"
    by (simp add: list_items_def three_items_def item_at_def upt_rec)
  have c: "count three_items = 3" by (simp add: three_items_def)
  show ?thesis
    using wf remove_item_correct [OF wf, of 1 "quiet_env 0"]
      remove_item_correct [OF wf, of 3 "quiet_env 0"]
    by (auto simp: li c)
qed

subsection \<open>C2: saving, then loading\<close>

text \<open>
  C2, as amended: if every item of the list is non-empty, contains no newline and no
  NUL, does not end in white space and is at most 1023 bytes long (as every item the
  input paths store is), the file can be written, and the allocator grants two requests
  per item, then loading the saved file appends the saved items, in order, to the
  list loaded into: into an empty list it reproduces the saved sequence exactly, into
  a non-empty list it gives original-count + saved-count items, with no deduplication.
\<close>

theorem save_then_load:
  assumes "list_all plain_item (list_items l)" and "wfile e filename = None"
    and "wf_list l0" and "2 * count l \<le> heap e"
  shows "\<exists>l' e'. load_from_file l0 filename (save_to_file l filename e) = Ret l' e' \<and>
           wf_list l' \<and> list_items l' = list_items l0 @ list_items l \<and>
           count l' = count l0 + count l \<and>
           (count l0 = 0 \<longrightarrow> list_items l' = list_items l)"
proof -
  define e1 where "e1 = save_to_file l filename e"
  have rf: "rfile e1 filename = Inr (file_lines (list_items l))" and hp: "heap e1 = heap e"
    using save_to_file_ok [OF assms(2), of l] by (simp_all add: e1_def)
  have "2 * length (list_items l) \<le> heap e1" using assms(4) hp by (simp add: list_items_length)
  from load_lines_saved [OF assms(1,3) this]
  obtain l' h where ll: "load_lines l0 (file_lines (list_items l)) e1 = Ret l' (e1\<lparr>heap := h\<rparr>)"
    and wf: "wf_list l'" and li: "list_items l' = list_items l0 @ list_items l"
    by blast
  have "length (list_items l') = length (list_items l0) + length (list_items l)"
    using li by simp
  then have cnt: "count l' = count l0 + count l" by (simp add: list_items_length)
  have "count l0 = 0 \<longrightarrow> list_items l0 = []" by (simp add: list_items_def)
  then have "count l0 = 0 \<longrightarrow> list_items l' = list_items l" using li by simp
  then show ?thesis
    using rf ll wf li cnt unfolding e1_def [symmetric] by (simp add: load_from_file_def)
qed

theorem save_then_load_witness:
  "list_all plain_item (list_items apples_bread) \<and> wfile (quiet_env 4) ''out.txt'' = None \<and>
   wf_list fresh_list \<and> 2 * count apples_bread \<le> heap (quiet_env 4) \<and>
   (\<exists>l' e'. load_from_file fresh_list ''out.txt''
              (save_to_file apples_bread ''out.txt'' (quiet_env 4)) = Ret l' e' \<and>
            list_items l' = [''apples'', ''bread''] \<and> count l' = 2)"
proof -
  have li: "list_items apples_bread = [''apples'', ''bread'']"
    by (simp add: list_items_def apples_bread_def item_at_def upt_rec)
  have a: "list_all plain_item (list_items apples_bread)"
    by (simp add: li plain_item_def trailing_def isspace_def BUFFER_SIZE_def)
  have b: "wfile (quiet_env 4) ''out.txt'' = None" by (simp add: quiet_env_def)
  have c: "wf_list fresh_list" by (simp add: fresh_list_wf)
  have d: "2 * count apples_bread \<le> heap (quiet_env 4)"
    by (simp add: apples_bread_def quiet_env_def)
  from save_then_load [OF a b c d]
  obtain l' e' where "load_from_file fresh_list ''out.txt''
              (save_to_file apples_bread ''out.txt'' (quiet_env 4)) = Ret l' e'"
    and "list_items l' = list_items fresh_list @ list_items apples_bread"
    and "count l' = count fresh_list + count apples_bread"
    by blast
  then have "\<exists>l' e'. load_from_file fresh_list ''out.txt''
              (save_to_file apples_bread ''out.txt'' (quiet_env 4)) = Ret l' e' \<and>
            list_items l' = [''apples'', ''bread''] \<and> count l' = 2"
    using fresh_list_wf li by (simp add: fresh_list_def apples_bread_def)
  then show ?thesis using a b c d by blast
qed

text \<open>
  The claim as stated asked only for items without a newline. The item "a " has none
  and \<open>add_item\<close> stores it as it is, yet the file saved from the list ["a "] loads
  back as ["a"]: \<open>load_from_file\<close> trims every line it reads.
\<close>

theorem save_then_load_counterexample:
  "add_item fresh_list ''a '' (quiet_env 5) = Ret spaced_item (quiet_env 4) \<and>
   NL \<notin> set ''a '' \<and> wf_list spaced_item \<and> list_items spaced_item = [''a ''] \<and>
   (\<exists>l' e'. load_from_file fresh_list ''out.txt''
              (save_to_file spaced_item ''out.txt'' (quiet_env 4)) = Ret l' e' \<and>
            list_items l' = [''a''] \<and> list_items l' \<noteq> list_items spaced_item)"
proof -
  have li: "list_items spaced_item = [''a '']"
    by (simp add: list_items_def spaced_item_def item_at_def)
  have wf: "wf_list spaced_item" by (simp add: wf_list_def spaced_item_def)
  define e1 where "e1 = save_to_file spaced_item ''out.txt'' (quiet_env 4)"
  have w: "wfile (quiet_env 4) ''out.txt'' = None" by (simp add: quiet_env_def)
  have rf: "rfile e1 ''out.txt'' = Inr (''a '' @ [NL])" and hp: "heap e1 = 4"
    using save_to_file_ok [OF w, of spaced_item]
    by (simp_all add: e1_def li file_lines_def quiet_env_def)
  have fg: "fgets BUFFER_SIZE (''a '' @ [NL]) = Some (''a '' @ [NL], [])"
    using fgets_line [of "''a ''" "[]"] by (simp add: BUFFER_SIZE_def)
  have rt: "rtrim (cstr (''a '' @ [NL])) = ''a''"
    by (simp add: cstr_def rtrim.simps trailing_def isspace_def)
  have c0: "char0 ''a'' \<noteq> NUL" by (simp add: char0_def)
  have "2 \<le> heap e1" using hp by simp
  from add_item_enough [OF conjunct1 [OF fresh_list_wf] c0 this]
  obtain l1 h where a: "add_item fresh_list ''a'' e1 = Ret l1 (e1\<lparr>heap := h\<rparr>)"
    and li1: "list_items l1 = [''a'']"
    using fresh_list_wf by auto
  have "load_lines fresh_list (''a '' @ [NL]) e1 = Ret l1 (e1\<lparr>heap := h\<rparr>)"
    using load_lines_add [OF fg rt, of fresh_list e1] a by (simp add: load_lines_eof)
  then have "\<exists>e'. load_from_file fresh_list ''out.txt'' e1 = Ret l1 e'"
    using rf by (simp add: load_from_file_def)
  moreover have "add_item fresh_list ''a '' (quiet_env 5) = Ret spaced_item (quiet_env 4)"
    by (simp add: add_item_def ensure_capacity_def alloc_def fresh_list_def spaced_item_def
        quiet_env_def char0_def INITIAL_CAPACITY_def eval_nat_numeral)
  ultimately show ?thesis using li wf li1 unfolding e1_def by auto
qed

subsection \<open>C3: blank input, and the items that are stored\<close>

text \<open>
  C3: \<open>add_item\<close> itself only refuses the empty string; it is \<open>rtrim\<close>, applied to the
  buffer on both input paths before \<open>add_item\<close> is reached, that turns a line of white
  space into the empty string. So a line that holds nothing but white space ("", "   ",
  "\r\n") is never added: trimmed and handed to \<open>add_item\<close> it leaves the list as it
  is, the item loop of \<open>main\<close> answers "(no input)" and asks again, and the loop of
  \<open>load_from_file\<close> skips it. Consequently no stored item is empty: the invariant holds
  for the list \<open>create_list\<close> returns and is kept by \<open>add_item\<close> (with any argument),
  \<open>remove_item\<close>, the clearing loop and \<open>load_from_file\<close>.
\<close>

theorem blank_input_never_stored:
  assumes "items_nonempty l"
  shows "((\<forall>c\<in>set line. isspace c) \<longrightarrow>
            rtrim (cstr line) = [] \<and> add_item l (rtrim (cstr line)) e = Ret l e) \<and>
         ((\<forall>c\<in>set line. isspace c) \<and> fgets BUFFER_SIZE inp = Some (line, rest) \<longrightarrow>
            main_loop l inp e
              = main_loop l rest (printf (''(no input)'' @ [NL]) (printf prompt_item e)) \<and>
            load_lines l inp e = load_lines l rest e) \<and>
         (\<forall>l0 e0. create_list e = Ret l0 e0 \<longrightarrow> items_nonempty l0 \<and> count l0 = 0) \<and>
         (\<forall>item l' e'. add_item l item e = Ret l' e' \<longrightarrow> items_nonempty l') \<and>
         (\<forall>i. items_nonempty (fst (remove_item l i e))) \<and>
         (items_nonempty (fst (clear_items l e)) \<and> count (fst (clear_items l e)) = 0) \<and>
         (\<forall>filename l' e'. load_from_file l filename e = Ret l' e' \<longrightarrow> items_nonempty l')"
proof (intro conjI impI allI; (elim conjE)?)
  assume "\<forall>c\<in>set line. isspace c"
  then show "rtrim (cstr line) = []" by (rule blank_line)
  then show "add_item l (rtrim (cstr line)) e = Ret l e" by (simp add: add_item_empty char0_def)
next
  assume b: "\<forall>c\<in>set line. isspace c" and fg: "fgets BUFFER_SIZE inp = Some (line, rest)"
  have r: "rtrim (cstr line) = []" using b by (rule blank_line)
  then have "next_line inp = Some ([], rest)" using fg by (simp add: next_line_def)
  from main_loop_line [OF this]
  show "main_loop l inp e = main_loop l rest (printf (''(no input)'' @ [NL]) (printf prompt_item e))"
    by (simp add: char0_def)
  show "load_lines l inp e = load_lines l rest e" using fg r by (rule load_lines_blank)
next
  fix l0 e0 assume "create_list e = Ret l0 e0"
  then have "l0 = fresh_list"
    by (auto simp: create_list_def alloc_def out_of_memory_def fresh_list_def split: if_splits)
  then show "items_nonempty l0" "count l0 = 0"
    using fresh_list_wf by (simp_all add: items_nonempty_def fresh_list_def)
next
  fix item l' e' assume "add_item l item e = Ret l' e'"
  from add_item_result [OF _ this] assms
  show "items_nonempty l'" by (auto simp: items_nonempty_def)
next
  fix i
  from remove_item_result [of l i e] assms
  show "items_nonempty (fst (remove_item l i e))"
    by (auto simp: items_nonempty_def list_all_iff)
next
  from clear_items_result [of l e] assms obtain l' where
    c: "clear_items l e = (l', e)" "wf_list l'" "count l' = 0"
    by (auto simp: items_nonempty_def)
  then show "items_nonempty (fst (clear_items l e))" "count (fst (clear_items l e)) = 0"
    by (simp_all add: items_nonempty_def list_items_def)
next
  fix filename l' e' assume "load_from_file l filename e = Ret l' e'"
  from load_from_file_result [OF _ this] assms obtain xs where
    "wf_list l'" "list_items l' = list_items l @ xs" "list_all plain_item xs"
    by (auto simp: items_nonempty_def)
  then show "items_nonempty l'"
    using assms plain_items_nonempty items_nonempty_append by blast
qed

theorem blank_input_never_stored_witness:
  "items_nonempty three_items \<and>
   list_all isspace ''   '' \<and> add_item three_items (rtrim (cstr ''   '')) (quiet_env 2) = Ret three_items (quiet_env 2) \<and>
   list_all isspace [CR, NL] \<and> add_item three_items (rtrim (cstr [CR, NL])) (quiet_env 2) = Ret three_items (quiet_env 2) \<and>
   add_item three_items (rtrim (cstr [])) (quiet_env 2) = Ret three_items (quiet_env 2) \<and>
   fgets BUFFER_SIZE [CR, NL] = Some ([CR, NL], []) \<and>
   main_loop three_items [CR, NL] (quiet_env 2)
     = main_loop three_items [] (printf (''(no input)'' @ [NL]) (printf prompt_item (quiet_env 2))) \<and>
   load_lines three_items [CR, NL] (quiet_env 2) = Ret three_items (quiet_env 2) \<and>
   create_list (quiet_env 2) = Ret fresh_list (quiet_env 0) \<and> items_nonempty fresh_list \<and>
   items_nonempty (fst (remove_item three_items 1 (quiet_env 2))) \<and>
   count (fst (clear_items three_items (quiet_env 2))) = 0"
proof -
  have inv: "items_nonempty three_items"
    by (simp add: items_nonempty_def wf_list_def list_items_def three_items_def item_at_def upt_rec)
  have sp: "\<forall>c\<in>set ''   ''. isspace c" "\<forall>c\<in>set [CR, NL]. isspace c" "\<forall>c\<in>set []. isspace c"
    by (simp_all add: isspace_def)
  have fg: "fgets BUFFER_SIZE [CR, NL] = Some ([CR, NL], [])"
    by (simp add: fgets_def BUFFER_SIZE_def fgets_read_Cons)
  have cl: "create_list (quiet_env 2) = Ret fresh_list (quiet_env 0)"
    using create_list_fresh [of "quiet_env 2"] by (simp add: quiet_env_def)
  note t1 = blank_input_never_stored [OF inv, of "''   ''" "quiet_env 2"]
  note t2 = blank_input_never_stored [OF inv, of "[CR, NL]" "quiet_env 2" "[CR, NL]" "[]"]
  note t3 = blank_input_never_stored [OF inv, of "[]" "quiet_env 2"]
  have a1: "add_item three_items (rtrim (cstr ''   '')) (quiet_env 2) = Ret three_items (quiet_env 2)"
    using t1 sp(1) by blast
  have a2: "add_item three_items (rtrim (cstr [CR, NL])) (quiet_env 2) = Ret three_items (quiet_env 2)"
    using t2 sp(2) by blast
  have a3: "add_item three_items (rtrim (cstr [])) (quiet_env 2) = Ret three_items (quiet_env 2)"
    using t3 sp(3) by blast
  have m: "main_loop three_items [CR, NL] (quiet_env 2)
     = main_loop three_items [] (printf (''(no input)'' @ [NL]) (printf prompt_item (quiet_env 2)))"
    and ld: "load_lines three_items [CR, NL] (quiet_env 2) = load_lines three_items [] (quiet_env 2)"
    using t2 sp(2) fg by blast+
  have f: "items_nonempty fresh_list" using t1 cl by blast
  have r: "items_nonempty (fst (remove_item three_items 1 (quiet_env 2)))" using t1 by blast
  have c: "count (fst (clear_items three_items (quiet_env 2))) = 0" using t1 by blast
  have "list_all isspace ''   ''" "list_all isspace [CR, NL]" by (simp_all add: isspace_def)
  then show ?thesis using inv a1 a2 a3 fg m ld cl f r c by (simp add: load_lines_eof)
qed

subsection \<open>C4: the bare command marker\<close>

text \<open>
  C4, as amended: the line "/" is handled as a command and changes nothing in the list
  (no item is added), but it is not silent: its one token is "/" itself, which is no
  known command, so the unknown-command message is printed. In the item loop the
  program then asks for the next item.
\<close>

theorem bare_marker_unknown_command:
  "try_handle_command l ''/'' e
     = Ret (1, l) (printf (''Unknown command. Type /help for commands.'' @ [NL]) e) \<and>
   main_loop l (''/'' @ NL # rest) e
     = main_loop l rest
         (printf (''Unknown command. Type /help for commands.'' @ [NL]) (printf prompt_item e))"
proof -
  have c: "char0 ''/'' = CHR ''/''" by (simp add: char0_def)
  have a: "cmd_arg ''/'' = Some (''/'', None)"
    by (simp add: cmd_arg_def strtok_def delims_def BUFFER_SIZE_def)
  have u: "try_handle_command l ''/'' e'
             = Ret (1, l) (printf (''Unknown command. Type /help for commands.'' @ [NL]) e')" for e'
    using cmd_unknown [OF c a] by simp
  have "next_line (''/'' @ NL # rest) = Some (''/'', rest)"
    by (simp add: next_line_def fgets_def BUFFER_SIZE_def fgets_read_Cons cstr_def rtrim.simps
        trailing_def isspace_def)
  from main_loop_line [OF this] show ?thesis using u c by simp
qed

text \<open>
  The claim as stated said that no message is produced: on a fresh list and a silent
  environment the line "/" leaves the unknown-command message on standard output.
\<close>

theorem bare_marker_counterexample:
  "\<exists>e'. try_handle_command fresh_list ''/'' (quiet_env 0) = Ret (1, fresh_list) e' \<and>
        out e' = ''Unknown command. Type /help for commands.'' @ [NL] \<and>
        out e' \<noteq> out (quiet_env 0)"
proof -
  have c: "char0 ''/'' = CHR ''/''" by (simp add: char0_def)
  have a: "cmd_arg ''/'' = Some (''/'', None)"
    by (simp add: cmd_arg_def strtok_def delims_def BUFFER_SIZE_def)
  show ?thesis
    using cmd_unknown [OF c a, of fresh_list "quiet_env 0"]
    by (simp add: printf_def quiet_env_def)
qed

subsection \<open>C5: the index of /remove\<close>



subsection \<open>C6: which lines are commands\<close>

text \<open>
  C6: \<open>try_handle_command\<close> returns 0, touching nothing, exactly for the lines that do
  not start with '/'. For a line that starts with '/' it never returns 0: it returns 1
  (the catch-all covers unknown commands), unless the process ends inside it, through
  \<open>/quit\<close> with status 0 or out of memory while loading with status 1. So in the
  confirmation loop the branch for a command that was not handled is never taken:
  after a command the loop goes on with the list and environment the command left,
  and its "enter a command starting with /" message is never printed.
\<close>

theorem command_iff_marker:
  "(char0 input \<noteq> CHR ''/'' \<longrightarrow> try_handle_command l input e = Ret (0, l) e) \<and>
   (char0 input = CHR ''/'' \<longrightarrow>
      (\<exists>l' e'. try_handle_command l input e = Ret (1, l') e') \<or>
      try_handle_command l input e = Exit EXIT_SUCCESS (printf (''Goodbye!'' @ [NL]) e) \<or>
      (\<exists>e'. try_handle_command l input e = Exit EXIT_FAILURE e')) \<and>
   (char0 input = CHR ''/'' \<and> next_line inp = Some (input, rest) \<longrightarrow>
      confirm_loop l inp e =
        (case try_handle_command l input (printf prompt_more e) of
           Exit c e1 \<Rightarrow> (c, e1)
         | Ret (r, l1) e1 \<Rightarrow> confirm_loop l1 rest e1))"
proof (intro conjI impI)
  assume "char0 input \<noteq> CHR ''/''"
  then show "try_handle_command l input e = Ret (0, l) e" by (rule not_a_command)
next
  assume "char0 input = CHR ''/''"
  from command_handled [OF this, of e l]
  show "(\<exists>l' e'. try_handle_command l input e = Ret (1, l') e') \<or>
      try_handle_command l input e = Exit EXIT_SUCCESS (printf (''Goodbye!'' @ [NL]) e) \<or>
      (\<exists>e'. try_handle_command l input e = Exit EXIT_FAILURE e')"
    by (cases "try_handle_command l input e") (auto simp: handled_def)
next
  assume a: "char0 input = CHR ''/'' \<and> next_line inp = Some (input, rest)"
  let ?r = "try_handle_command l input (printf prompt_more e)"
  have h: "handled (printf prompt_more e) ?r" using a by (simp add: command_handled)
  have "confirm_loop l inp e =
          (case ?r of Exit c e1 \<Rightarrow> (c, e1)
           | Ret (r, l1) e1 \<Rightarrow>
               if r \<noteq> 0 then confirm_loop l1 rest e1
               else confirm_loop l1 rest
                      (printf (''Please answer y or n or enter a command starting with /.''
                                 @ [NL]) e1))"
    using a confirm_loop_line [of inp input rest l e] by simp
  also have "\<dots> = (case ?r of Exit c e1 \<Rightarrow> (c, e1) | Ret (r, l1) e1 \<Rightarrow> confirm_loop l1 rest e1)"
    using h by (cases ?r) (auto simp: handled_def)
  finally show "confirm_loop l inp e =
        (case ?r of Exit c e1 \<Rightarrow> (c, e1) | Ret (r, l1) e1 \<Rightarrow> confirm_loop l1 rest e1)" .
qed

theorem command_iff_marker_witness:
  "char0 ''milk'' \<noteq> CHR ''/'' \<and>
   try_handle_command fresh_list ''milk'' (quiet_env 0) = Ret (0, fresh_list) (quiet_env 0) \<and>
   char0 ''/bogus'' = CHR ''/'' \<and>
   try_handle_command fresh_list ''/bogus'' (quiet_env 0)
     = Ret (1, fresh_list) (printf (''Unknown command. Type /help for commands.'' @ [NL]) (quiet_env 0)) \<and>
   next_line (''/bogus'' @ [NL]) = Some (''/bogus'', []) \<and>
   confirm_loop fresh_list (''/bogus'' @ [NL]) (quiet_env 0)
     = confirm_loop fresh_list []
         (printf (''Unknown command. Type /help for commands.'' @ [NL])
            (printf prompt_more (quiet_env 0)))"
proof -
  have c1: "char0 ''milk'' \<noteq> CHR ''/''" and c2: "char0 ''/bogus'' = CHR ''/''"
    by (simp_all add: char0_def)
  have a: "cmd_arg ''/bogus'' = Some (''/bogus'', None)"
    by (simp add: cmd_arg_def strtok_def delims_def BUFFER_SIZE_def)
  have u: "try_handle_command fresh_list ''/bogus'' e'
     = Ret (1, fresh_list) (printf (''Unknown command. Type /help for commands.'' @ [NL]) e')" for e'
    using cmd_unknown [OF c2 a] by simp
  have n: "next_line (''/bogus'' @ [NL]) = Some (''/bogus'', [])"
    by (simp add: next_line_def fgets_def BUFFER_SIZE_def fgets_read_Cons cstr_def rtrim.simps
        trailing_def isspace_def)
  have "try_handle_command fresh_list ''milk'' (quiet_env 0) = Ret (0, fresh_list) (quiet_env 0)"
    using command_iff_marker [of "''milk''" fresh_list "quiet_env 0"] c1 by simp
  moreover have "confirm_loop fresh_list (''/bogus'' @ [NL]) (quiet_env 0)
     = confirm_loop fresh_list []
         (printf (''Unknown command. Type /help for commands.'' @ [NL])
            (printf prompt_more (quiet_env 0)))"
    using command_iff_marker [of "''/bogus''" fresh_list "quiet_env 0" "''/bogus'' @ [NL]" "[]"]
      c2 n u by simp
  ultimately show ?thesis using c1 c2 u n by simp
qed

subsection \<open>C7: what save writes\<close>

text \<open>
  C7: when the file can be opened for writing, \<open>save_to_file\<close> leaves in it exactly the
  items of the list in list order, each followed by one newline, and nothing else (no
  header, no metadata); it reports the number of items on standard output and changes
  nothing else. The list [apples, bread] gives the file "apples\nbread\n".
\<close>

theorem save_to_file_contents:
  "wfile e filename = None \<Longrightarrow>
   save_to_file l filename e =
     e\<lparr>out := out e @ ''Saved '' @ show_nat (count l) @ '' items to '' @ [CHR 0x27] @ filename
                 @ [CHR 0x27] @ [NL],
       rfile := (rfile e)(filename := Inr (concat (map (\<lambda>s. s @ [NL]) (list_items l))))\<rparr>"
  by (simp add: save_to_file_def printf_def write_rows_file file_lines_def)

theorem save_to_file_contents_witness:
  "wfile (quiet_env 0) ''out.txt'' = None \<and>
   list_items apples_bread = [''apples'', ''bread''] \<and>
   rfile (save_to_file apples_bread ''out.txt'' (quiet_env 0)) ''out.txt''
     = Inr (''apples'' @ [NL] @ ''bread'' @ [NL])"
proof -
  have w: "wfile (quiet_env 0) ''out.txt'' = None" by (simp add: quiet_env_def)
  have li: "list_items apples_bread = [''apples'', ''bread'']"
    by (simp add: list_items_def apples_bread_def item_at_def upt_rec)
  have "rfile (save_to_file apples_bread ''out.txt'' (quiet_env 0)) ''out.txt''
          = Inr (concat (map (\<lambda>s. s @ [NL]) (list_items apples_bread)))"
    by (subst save_to_file_contents [OF w]) simp
  then show ?thesis using w li by simp
qed

subsection \<open>C8: a file that cannot be opened\<close>

text \<open>
  C8: when the file cannot be opened, \<open>save_to_file\<close> and \<open>load_from_file\<close> only write
  "Failed to open file: " and the reason to standard error; the list, the files and
  standard output stay as they were. The failure is not fatal: \<open>/save\<close> and \<open>/load\<close> return 1
  with the list unchanged, and both loops of \<open>main\<close> go on to read the next line with
  that same list.
\<close>

theorem open_failure_reported:
  "(wfile e filename = Some reason \<longrightarrow>
      save_to_file l filename e = e\<lparr>err := err e @ ''Failed to open file: '' @ reason @ [NL]\<rparr>) \<and>
   (rfile e filename = Inl reason \<longrightarrow>
      load_from_file l filename e
        = Ret l (e\<lparr>err := err e @ ''Failed to open file: '' @ reason @ [NL]\<rparr>)) \<and>
   (char0 input = CHR ''/'' \<and> cmd_arg input = Some (''/save'', Some filename) \<and>
    wfile e filename = Some reason \<longrightarrow>
      try_handle_command l input e = Ret (1, l) (perror ''Failed to open file'' reason e) \<and>
      (next_line inp = Some (input, rest) \<longrightarrow>
         main_loop l inp e
           = main_loop l rest (perror ''Failed to open file'' reason (printf prompt_item e)) \<and>
         confirm_loop l inp e
           = confirm_loop l rest (perror ''Failed to open file'' reason (printf prompt_more e)))) \<and>
   (char0 input = CHR ''/'' \<and> cmd_arg input = Some (''/load'', Some filename) \<and>
    rfile e filename = Inl reason \<longrightarrow>
      try_handle_command l input e = Ret (1, l) (perror ''Failed to open file'' reason e) \<and>
      (next_line inp = Some (input, rest) \<longrightarrow>
         main_loop l inp e
           = main_loop l rest (perror ''Failed to open file'' reason (printf prompt_item e)) \<and>
         confirm_loop l inp e
           = confirm_loop l rest (perror ''Failed to open file'' reason (printf prompt_more e))))"
proof (intro conjI impI; (elim conjE)?)
  assume "wfile e filename = Some reason"
  then show "save_to_file l filename e = e\<lparr>err := err e @ ''Failed to open file: '' @ reason @ [NL]\<rparr>"
    by (simp add: save_open_failure perror_def)
next
  assume "rfile e filename = Inl reason"
  then show "load_from_file l filename e
        = Ret l (e\<lparr>err := err e @ ''Failed to open file: '' @ reason @ [NL]\<rparr>)"
    by (simp add: load_open_failure perror_def)
next
  assume c: "char0 input = CHR ''/''" and a: "cmd_arg input = Some (''/save'', Some filename)"
    and w: "wfile e filename = Some reason"
  show "try_handle_command l input e = Ret (1, l) (perror ''Failed to open file'' reason e)"
    using cmd_save [OF c a] w by (simp add: save_open_failure)
next
  assume c: "char0 input = CHR ''/''" and a: "cmd_arg input = Some (''/save'', Some filename)"
    and w: "wfile e filename = Some reason" and n: "next_line inp = Some (input, rest)"
  have t: "try_handle_command l input (printf p e)
             = Ret (1, l) (perror ''Failed to open file'' reason (printf p e))" for p
    using cmd_save [OF c a] w by (simp add: save_open_failure printf_files)
  show "main_loop l inp e
           = main_loop l rest (perror ''Failed to open file'' reason (printf prompt_item e))"
    using main_loop_line [OF n] c t by simp
next
  assume c: "char0 input = CHR ''/''" and a: "cmd_arg input = Some (''/save'', Some filename)"
    and w: "wfile e filename = Some reason" and n: "next_line inp = Some (input, rest)"
  have t: "try_handle_command l input (printf p e)
             = Ret (1, l) (perror ''Failed to open file'' reason (printf p e))" for p
    using cmd_save [OF c a] w by (simp add: save_open_failure printf_files)
  show "confirm_loop l inp e
           = confirm_loop l rest (perror ''Failed to open file'' reason (printf prompt_more e))"
    using confirm_loop_line [OF n] c t by simp
next
  assume c: "char0 input = CHR ''/''" and a: "cmd_arg input = Some (''/load'', Some filename)"
    and r: "rfile e filename = Inl reason"
  show "try_handle_command l input e = Ret (1, l) (perror ''Failed to open file'' reason e)"
    using cmd_load [OF c a] r by (simp add: load_open_failure)
next
  assume c: "char0 input = CHR ''/''" and a: "cmd_arg input = Some (''/load'', Some filename)"
    and r: "rfile e filename = Inl reason" and n: "next_line inp = Some (input, rest)"
  have t: "try_handle_command l input (printf p e)
             = Ret (1, l) (perror ''Failed to open file'' reason (printf p e))" for p
    using cmd_load [OF c a] r by (simp add: load_open_failure printf_files)
  show "main_loop l inp e
           = main_loop l rest (perror ''Failed to open file'' reason (printf prompt_item e))"
    using main_loop_line [OF n] c t by simp
next
  assume c: "char0 input = CHR ''/''" and a: "cmd_arg input = Some (''/load'', Some filename)"
    and r: "rfile e filename = Inl reason" and n: "next_line inp = Some (input, rest)"
  have t: "try_handle_command l input (printf p e)
             = Ret (1, l) (perror ''Failed to open file'' reason (printf p e))" for p
    using cmd_load [OF c a] r by (simp add: load_open_failure printf_files)
  show "confirm_loop l inp e
           = confirm_loop l rest (perror ''Failed to open file'' reason (printf prompt_more e))"
    using confirm_loop_line [OF n] c t by simp
qed


theorem open_failure_reported_witness:
  "wfile (quiet_env 0\<lparr>wfile := \<lambda>_. Some ''Permission denied''\<rparr>) ''ro.txt'' = Some ''Permission denied'' \<and>
   save_to_file three_items ''ro.txt'' (quiet_env 0\<lparr>wfile := \<lambda>_. Some ''Permission denied''\<rparr>)
     = quiet_env 0\<lparr>wfile := \<lambda>_. Some ''Permission denied'',
                     err := ''Failed to open file: Permission denied'' @ [NL]\<rparr> \<and>
   char0 ''/save ro.txt'' = CHR ''/'' \<and>
   cmd_arg ''/save ro.txt'' = Some (''/save'', Some ''ro.txt'') \<and>
   next_line (''/save ro.txt'' @ [NL]) = Some (''/save ro.txt'', []) \<and>
   main_loop three_items (''/save ro.txt'' @ [NL]) (quiet_env 0\<lparr>wfile := \<lambda>_. Some ''Permission denied''\<rparr>)
     = main_loop three_items []
         (perror ''Failed to open file'' ''Permission denied''
            (printf prompt_item (quiet_env 0\<lparr>wfile := \<lambda>_. Some ''Permission denied''\<rparr>))) \<and>
   rfile (quiet_env 0) ''none.txt'' = Inl ''No such file or directory'' \<and>
   load_from_file three_items ''none.txt'' (quiet_env 0)
     = Ret three_items (quiet_env 0\<lparr>err := ''Failed to open file: No such file or directory'' @ [NL]\<rparr>) \<and>
   char0 ''/load none.txt'' = CHR ''/'' \<and>
   cmd_arg ''/load none.txt'' = Some (''/load'', Some ''none.txt'') \<and>
   next_line (''/load none.txt'' @ [NL]) = Some (''/load none.txt'', []) \<and>
   confirm_loop three_items (''/load none.txt'' @ [NL]) (quiet_env 0)
     = confirm_loop three_items []
         (perror ''Failed to open file'' ''No such file or directory''
            (printf prompt_more (quiet_env 0)))"
proof -
  let ?E = "quiet_env 0\<lparr>wfile := \<lambda>_. Some ''Permission denied''\<rparr>"
  have w: "wfile ?E ''ro.txt'' = Some ''Permission denied''" by simp
  have r: "rfile (quiet_env 0) ''none.txt'' = Inl ''No such file or directory''"
    by (simp add: quiet_env_def)
  have c: "char0 ''/save ro.txt'' = CHR ''/''" "char0 ''/load none.txt'' = CHR ''/''"
    by (simp_all add: char0_def)
  have a: "cmd_arg ''/save ro.txt'' = Some (''/save'', Some ''ro.txt'')"
    "cmd_arg ''/load none.txt'' = Some (''/load'', Some ''none.txt'')"
    by (simp_all add: cmd_arg_def strtok_def delims_def BUFFER_SIZE_def)
  have n: "next_line (''/save ro.txt'' @ [NL]) = Some (''/save ro.txt'', [])"
    "next_line (''/load none.txt'' @ [NL]) = Some (''/load none.txt'', [])"
    by (simp_all add: next_line_def fgets_def BUFFER_SIZE_def fgets_read_Cons cstr_def
        rtrim.simps trailing_def isspace_def)
  have e: "err (quiet_env 0) = []" by (simp add: quiet_env_def)
  note s = open_failure_reported [of ?E "''ro.txt''" "''Permission denied''" three_items
      "''/save ro.txt''" "''/save ro.txt'' @ [NL]" "[]"]
  note l = open_failure_reported [of "quiet_env 0" "''none.txt''" "''No such file or directory''"
      three_items "''/load none.txt''" "''/load none.txt'' @ [NL]" "[]"]
  have s1: "save_to_file three_items ''ro.txt'' ?E
     = quiet_env 0\<lparr>wfile := \<lambda>_. Some ''Permission denied'',
                     err := ''Failed to open file: Permission denied'' @ [NL]\<rparr>"
    using s w e by simp
  have s2: "main_loop three_items (''/save ro.txt'' @ [NL]) ?E
     = main_loop three_items []
         (perror ''Failed to open file'' ''Permission denied'' (printf prompt_item ?E))"
    using s w c a n by blast
  have l1: "load_from_file three_items ''none.txt'' (quiet_env 0)
     = Ret three_items (quiet_env 0\<lparr>err := ''Failed to open file: No such file or directory'' @ [NL]\<rparr>)"
    using l r e by simp
  have l2: "confirm_loop three_items (''/load none.txt'' @ [NL]) (quiet_env 0)
     = confirm_loop three_items []
         (perror ''Failed to open file'' ''No such file or directory''
            (printf prompt_more (quiet_env 0)))"
    using l r c a n by blast
  show ?thesis using w r c a n s1 s2 l1 l2 by blast
qed

subsection \<open>C9: the confirmation loop\<close>

text \<open>
  C9: after an item has been added, \<open>main\<close> is in its confirmation loop. There a line
  whose first character is 'y' or 'Y' leads back to the item loop, and a line whose
  first character is 'n' or 'N' ends the run: the final list is printed and the exit
  status is 0. On the input "milk", "y", "eggs", "n", with memory for four allocations,
  the run ends with status 0 and its output ends with the final list "1. milk",
  "2. eggs".
\<close>

theorem confirmation_loop_machine:
  "(next_line inp = Some (buf, rest) \<and> char0 buf \<noteq> NUL \<and> char0 buf \<noteq> CHR ''/'' \<and>
    add_item l buf (printf prompt_item e) = Ret l2 e2 \<longrightarrow>
      main_loop l inp e = confirm_loop l2 rest (printf (''Added: '' @ buf @ [NL]) e2)) \<and>
   (fgets BUFFER_SIZE inp = Some (line, rest) \<and> (char0 line = CHR ''y'' \<or> char0 line = CHR ''Y'') \<longrightarrow>
      confirm_loop l inp e = main_loop l rest (printf prompt_more e)) \<and>
   (fgets BUFFER_SIZE inp = Some (line, rest) \<and> (char0 line = CHR ''n'' \<or> char0 line = CHR ''N'') \<longrightarrow>
      confirm_loop l inp e
        = (0, print_list l (printf ([NL] @ ''Final list:'' @ [NL]) (printf prompt_more e)))) \<and>
   (4 \<le> heap e \<longrightarrow>
      main (''milk'' @ [NL] @ ''y'' @ [NL] @ ''eggs'' @ [NL] @ ''n'' @ [NL]) e =
        (0, e\<lparr>heap := heap e - 4,
              out := out e @ ''Welcome to Usagi'' @ [CHR 0x27] @ ''s Shopping List!'' @ [NL]
                     @ ''Type an item to add it. Type /help for commands.'' @ [NL, NL]
                     @ prompt_item @ ''Added: milk'' @ [NL]
                     @ prompt_more
                     @ prompt_item @ ''Added: eggs'' @ [NL]
                     @ prompt_more
                     @ [NL] @ ''Final list:'' @ [NL]
                     @ ''Your shopping list:'' @ [NL] @ ''1. milk'' @ [NL] @ ''2. eggs'' @ [NL]\<rparr>))"
proof (intro conjI impI; (elim conjE)?)
  assume "next_line inp = Some (buf, rest)" "char0 buf \<noteq> NUL" "char0 buf \<noteq> CHR ''/''"
    "add_item l buf (printf prompt_item e) = Ret l2 e2"
  then show "main_loop l inp e = confirm_loop l2 rest (printf (''Added: '' @ buf @ [NL]) e2)"
    by (simp add: main_loop_line not_a_command)
next
  assume "fgets BUFFER_SIZE inp = Some (line, rest)" "char0 line = CHR ''y'' \<or> char0 line = CHR ''Y''"
  then show "confirm_loop l inp e = main_loop l rest (printf prompt_more e)"
    using confirm_answer [of inp line rest "char0 line" l e] by auto
next
  assume "fgets BUFFER_SIZE inp = Some (line, rest)" "char0 line = CHR ''n'' \<or> char0 line = CHR ''N''"
  then show "confirm_loop l inp e
        = (0, print_list l (printf ([NL] @ ''Final list:'' @ [NL]) (printf prompt_more e)))"
    using confirm_answer [of inp line rest "char0 line" l e] by (auto simp: main_done_def)
next
  assume "4 \<le> heap e"
  then show "main (''milk'' @ [NL] @ ''y'' @ [NL] @ ''eggs'' @ [NL] @ ''n'' @ [NL]) e =
        (0, e\<lparr>heap := heap e - 4,
              out := out e @ ''Welcome to Usagi'' @ [CHR 0x27] @ ''s Shopping List!'' @ [NL]
                     @ ''Type an item to add it. Type /help for commands.'' @ [NL, NL]
                     @ prompt_item @ ''Added: milk'' @ [NL]
                     @ prompt_more
                     @ prompt_item @ ''Added: eggs'' @ [NL]
                     @ prompt_more
                     @ [NL] @ ''Final list:'' @ [NL]
                     @ ''Your shopping list:'' @ [NL] @ ''1. milk'' @ [NL] @ ''2. eggs'' @ [NL]\<rparr>)"
    by (rule milk_eggs_run)
qed

theorem confirmation_loop_machine_witness:
  "next_line (''tea'' @ [NL]) = Some (''tea'', []) \<and> char0 ''tea'' \<noteq> NUL \<and> char0 ''tea'' \<noteq> CHR ''/'' \<and>
   add_item fresh_list ''tea'' (printf prompt_item (quiet_env 1))
     = Ret (fresh_list\<lparr>items := (items fresh_list)[0 := Some ''tea''], count := 1\<rparr>)
           (printf prompt_item (quiet_env 0)) \<and>
   main_loop fresh_list (''tea'' @ [NL]) (quiet_env 1)
     = confirm_loop (fresh_list\<lparr>items := (items fresh_list)[0 := Some ''tea''], count := 1\<rparr>) []
         (printf (''Added: tea'' @ [NL]) (printf prompt_item (quiet_env 0))) \<and>
   fgets BUFFER_SIZE (''Yes'' @ [NL]) = Some (''Yes'' @ [NL], []) \<and> char0 (''Yes'' @ [NL]) = CHR ''Y'' \<and>
   confirm_loop three_items (''Yes'' @ [NL]) (quiet_env 0)
     = main_loop three_items [] (printf prompt_more (quiet_env 0)) \<and>
   fgets BUFFER_SIZE (''no'' @ [NL]) = Some (''no'' @ [NL], []) \<and> char0 (''no'' @ [NL]) = CHR ''n'' \<and>
   confirm_loop three_items (''no'' @ [NL]) (quiet_env 0)
     = (0, print_list three_items
             (printf ([NL] @ ''Final list:'' @ [NL]) (printf prompt_more (quiet_env 0)))) \<and>
   4 \<le> heap (quiet_env 4) \<and>
   main (''milk'' @ [NL] @ ''y'' @ [NL] @ ''eggs'' @ [NL] @ ''n'' @ [NL]) (quiet_env 4) =
     (0, quiet_env 0
           \<lparr>out := ''Welcome to Usagi'' @ [CHR 0x27] @ ''s Shopping List!'' @ [NL]
                   @ ''Type an item to add it. Type /help for commands.'' @ [NL, NL]
                   @ prompt_item @ ''Added: milk'' @ [NL]
                   @ prompt_more
                   @ prompt_item @ ''Added: eggs'' @ [NL]
                   @ prompt_more
                   @ [NL] @ ''Final list:'' @ [NL]
                   @ ''Your shopping list:'' @ [NL] @ ''1. milk'' @ [NL] @ ''2. eggs'' @ [NL]\<rparr>)"
proof -
  have n: "next_line (''tea'' @ [NL]) = Some (''tea'', [])"
    by (simp add: next_line_def fgets_def BUFFER_SIZE_def fgets_read_Cons cstr_def rtrim.simps
        trailing_def isspace_def)
  have c: "char0 ''tea'' \<noteq> NUL" "char0 ''tea'' \<noteq> CHR ''/''"
    "char0 (''Yes'' @ [NL]) = CHR ''Y''" "char0 (''no'' @ [NL]) = CHR ''n''"
    by (simp_all add: char0_def)
  have a: "add_item fresh_list ''tea'' (printf prompt_item (quiet_env 1))
     = Ret (fresh_list\<lparr>items := (items fresh_list)[0 := Some ''tea''], count := 1\<rparr>)
           (printf prompt_item (quiet_env 0))"
    by (simp add: add_item_def ensure_capacity_def alloc_def fresh_list_def INITIAL_CAPACITY_def
        char0_def printf_def quiet_env_def)
  have f: "fgets BUFFER_SIZE (''Yes'' @ [NL]) = Some (''Yes'' @ [NL], [])"
    "fgets BUFFER_SIZE (''no'' @ [NL]) = Some (''no'' @ [NL], [])"
    by (simp_all add: fgets_def BUFFER_SIZE_def fgets_read_Cons)
  have h: "4 \<le> heap (quiet_env 4)" by (simp add: quiet_env_def)
  note t1 = confirmation_loop_machine [of "''tea'' @ [NL]" "''tea''" "[]" fresh_list "quiet_env 1"]
  note t2 = confirmation_loop_machine [of "''Yes'' @ [NL]" _ "[]" three_items "quiet_env 0" _ _ "''Yes'' @ [NL]"]
  note t3 = confirmation_loop_machine [of "''no'' @ [NL]" _ "[]" three_items "quiet_env 0" _ _ "''no'' @ [NL]"]
  note t4 = confirmation_loop_machine [of _ _ _ _ "quiet_env 4"]
  have r1: "main_loop fresh_list (''tea'' @ [NL]) (quiet_env 1)
     = confirm_loop (fresh_list\<lparr>items := (items fresh_list)[0 := Some ''tea''], count := 1\<rparr>) []
         (printf (''Added: tea'' @ [NL]) (printf prompt_item (quiet_env 0)))"
    using t1 n c(1,2) a by simp
  have r2: "confirm_loop three_items (''Yes'' @ [NL]) (quiet_env 0)
     = main_loop three_items [] (printf prompt_more (quiet_env 0))"
    using t2 f(1) c(3) by blast
  have r3: "confirm_loop three_items (''no'' @ [NL]) (quiet_env 0)
     = (0, print_list three_items
             (printf ([NL] @ ''Final list:'' @ [NL]) (printf prompt_more (quiet_env 0))))"
    using t3 f(2) c(4) by blast
  have r4: "main (''milk'' @ [NL] @ ''y'' @ [NL] @ ''eggs'' @ [NL] @ ''n'' @ [NL]) (quiet_env 4) =
     (0, quiet_env 0
           \<lparr>out := ''Welcome to Usagi'' @ [CHR 0x27] @ ''s Shopping List!'' @ [NL]
                   @ ''Type an item to add it. Type /help for commands.'' @ [NL, NL]
                   @ prompt_item @ ''Added: milk'' @ [NL]
                   @ prompt_more
                   @ prompt_item @ ''Added: eggs'' @ [NL]
                   @ prompt_more
                   @ [NL] @ ''Final list:'' @ [NL]
                   @ ''Your shopping list:'' @ [NL] @ ''1. milk'' @ [NL] @ ''2. eggs'' @ [NL]\<rparr>)"
    using t4 h by (simp add: quiet_env_def)
  show ?thesis using n c a f h r1 r2 r3 r4 by blast
qed

subsection \<open>C10: lines longer than the buffer\<close>

text \<open>
  C10, as amended: every \<open>fgets\<close> of the program, from standard input or from a loaded
  file, returns at most 1023 bytes. Of a line longer than that it returns the first
  1023 bytes, and both readers treat them as a line of their own (trimmed; added if not
  blank) before reading on in the rest of the line. Loading a file whose single line
  exceeds 1023 bytes therefore gives one item for every chunk that is not blank after
  trimming: at least two items when both the first 1023 bytes and the bytes after them
  hold a character that is not white space (and the line has no NUL), but not for every
  such line.
\<close>

theorem long_line_in_chunks:
  "(fgets BUFFER_SIZE inp = Some (line, rest) \<longrightarrow>
      inp = line @ rest \<and> line \<noteq> [] \<and> length line \<le> BUFFER_SIZE - 1) \<and>
   (NL \<notin> set s \<and> BUFFER_SIZE - 1 < length s \<longrightarrow>
      fgets BUFFER_SIZE (s @ NL # rest)
        = Some (take (BUFFER_SIZE - 1) s, drop (BUFFER_SIZE - 1) s @ NL # rest) \<and>
      next_line (s @ NL # rest)
        = Some (rtrim (cstr (take (BUFFER_SIZE - 1) s)), drop (BUFFER_SIZE - 1) s @ NL # rest) \<and>
      load_lines l (s @ NL # rest) e =
        (if rtrim (cstr (take (BUFFER_SIZE - 1) s)) = []
         then load_lines l (drop (BUFFER_SIZE - 1) s @ NL # rest) e
         else (case add_item l (rtrim (cstr (take (BUFFER_SIZE - 1) s))) e of
                 Exit c e1 \<Rightarrow> Exit c e1
               | Ret l1 e1 \<Rightarrow> load_lines l1 (drop (BUFFER_SIZE - 1) s @ NL # rest) e1))) \<and>
   (NL \<notin> set s \<and> BUFFER_SIZE - 1 < length s \<and> NUL \<notin> set s \<and> wf_list l \<and>
    (\<exists>c\<in>set (take (BUFFER_SIZE - 1) s). \<not> isspace c) \<and>
    (\<exists>c\<in>set (drop (BUFFER_SIZE - 1) s). \<not> isspace c) \<and>
    rfile e filename = Inr (s @ [NL]) \<and> load_from_file l filename e = Ret l' e' \<longrightarrow>
      count l + 2 \<le> count l')"
proof (intro conjI impI; (elim conjE)?)
  assume "fgets BUFFER_SIZE inp = Some (line, rest)"
  from fgets_chunk [OF this]
  show "inp = line @ rest" "line \<noteq> []" "length line \<le> BUFFER_SIZE - 1" by simp_all
next
  assume s: "NL \<notin> set s" "BUFFER_SIZE - 1 < length s"
  then have "BUFFER_SIZE - 1 \<le> length s" by simp
  from fgets_long [OF s(1) this, of "NL # rest"]
  show fg: "fgets BUFFER_SIZE (s @ NL # rest)
        = Some (take (BUFFER_SIZE - 1) s, drop (BUFFER_SIZE - 1) s @ NL # rest)" .
  then show "next_line (s @ NL # rest)
        = Some (rtrim (cstr (take (BUFFER_SIZE - 1) s)), drop (BUFFER_SIZE - 1) s @ NL # rest)"
    by (simp add: next_line_def)
  from fg show "load_lines l (s @ NL # rest) e =
        (if rtrim (cstr (take (BUFFER_SIZE - 1) s)) = []
         then load_lines l (drop (BUFFER_SIZE - 1) s @ NL # rest) e
         else (case add_item l (rtrim (cstr (take (BUFFER_SIZE - 1) s))) e of
                 Exit c e1 \<Rightarrow> Exit c e1
               | Ret l1 e1 \<Rightarrow> load_lines l1 (drop (BUFFER_SIZE - 1) s @ NL # rest) e1))"
    by (rule load_lines_chunk)
next
  let ?a = "take (BUFFER_SIZE - 1) s" and ?t = "drop (BUFFER_SIZE - 1) s"
  assume s: "NL \<notin> set s" "BUFFER_SIZE - 1 < length s" "NUL \<notin> set s" and wf: "wf_list l"
    and va: "\<exists>c\<in>set ?a. \<not> isspace c" and vt: "\<exists>c\<in>set ?t. \<not> isspace c"
    and rf: "rfile e filename = Inr (s @ [NL])" and ld: "load_from_file l filename e = Ret l' e'"
  obtain e1 where ll: "load_lines l (s @ [NL]) e = Ret l' e1"
    using ld rf by (cases "load_lines l (s @ [NL]) e") (auto simp: load_from_file_def)
  have "BUFFER_SIZE - 1 \<le> length s" using s(2) by simp
  from fgets_long [OF s(1) this, of "[NL]"]
  have fg: "fgets BUFFER_SIZE (s @ [NL]) = Some (?a, ?t @ [NL])" .
  have "NUL \<notin> set ?a" using s(3) by (auto dest: in_set_takeD)
  then have ca: "cstr ?a = ?a" by (rule cstr_id)
  have nb: "rtrim (cstr ?a) \<noteq> []"
  proof
    assume "rtrim (cstr ?a) = []"
    then have "rtrim ?a = []" using ca by simp
    then have "\<forall>c\<in>set ?a. isspace c" by (rule rtrim_empty_blank)
    then show False using va by blast
  qed
  have "NUL \<notin> set (rtrim (cstr ?a))" using rtrim_set cstr_no_NUL by blast
  then have c0: "char0 (rtrim (cstr ?a)) \<noteq> NUL" using nb by (simp add: char0_NUL)
  from ll load_lines_chunk [OF fg, of l e] nb
  have eq: "(case add_item l (rtrim (cstr ?a)) e of Exit c e1 \<Rightarrow> Exit c e1
             | Ret l1 e1 \<Rightarrow> load_lines l1 (?t @ [NL]) e1) = Ret l' e1" by simp
  show "count l + 2 \<le> count l'"
  proof (cases "add_item l (rtrim (cstr ?a)) e")
    case (Exit c e2)
    then show ?thesis using eq by simp
  next
    case (Ret l1 e2)
    then have l2: "load_lines l1 (?t @ [NL]) e2 = Ret l' e1" using eq by simp
    from add_item_cases [OF wf c0, of e] Ret
    have wf1: "wf_list l1" and c1: "count l1 = count l + 1" by auto
    have "NUL \<notin> set (?t @ [NL])" using s(3) by (auto dest: in_set_dropD)
    moreover have "\<exists>c\<in>set (?t @ [NL]). \<not> isspace c" using vt by auto
    ultimately have "count l1 < count l'" using load_lines_visible [OF wf1 _ _ l2] by blast
    then show ?thesis using c1 by simp
  qed
qed


theorem long_line_in_chunks_witness:
  "fgets BUFFER_SIZE (''ab'' @ [NL] @ ''c'') = Some (''ab'' @ [NL], ''c'') \<and>
   NL \<notin> set (replicate 1023 (CHR ''a'') @ ''b'') \<and>
   BUFFER_SIZE - 1 < length (replicate 1023 (CHR ''a'') @ ''b'') \<and>
   NUL \<notin> set (replicate 1023 (CHR ''a'') @ ''b'') \<and> wf_list fresh_list \<and>
   fgets BUFFER_SIZE ((replicate 1023 (CHR ''a'') @ ''b'') @ [NL])
     = Some (replicate 1023 (CHR ''a''), ''b'' @ [NL]) \<and>
   (\<exists>l' e'. load_from_file fresh_list ''long.txt''
              (quiet_env 4\<lparr>rfile := \<lambda>_. Inr ((replicate 1023 (CHR ''a'') @ ''b'') @ [NL])\<rparr>)
              = Ret l' e' \<and>
            list_items l' = [replicate 1023 (CHR ''a''), ''b''] \<and> count fresh_list + 2 \<le> count l')"
proof -
  define a where "a = replicate 1023 (CHR ''a'')"
  let ?e = "quiet_env 4\<lparr>rfile := \<lambda>_. Inr ((a @ ''b'') @ [NL])\<rparr>"
  have la: "length a = BUFFER_SIZE - 1" by (simp add: a_def BUFFER_SIZE_def)
  have pa: "plain_item a"
    unfolding a_def by (rule plain_replicate) (simp_all add: BUFFER_SIZE_def isspace_def)
  have sa: "set a = {CHR ''a''}" by (simp add: a_def)
  have f0: "fgets BUFFER_SIZE (''ab'' @ [NL] @ ''c'') = Some (''ab'' @ [NL], ''c'')"
    by (simp add: fgets_def BUFFER_SIZE_def fgets_read_Cons)
  have s: "NL \<notin> set (a @ ''b'')" "BUFFER_SIZE - 1 < length (a @ ''b'')" "NUL \<notin> set (a @ ''b'')"
    using la by (simp_all add: sa)
  have td: "take (BUFFER_SIZE - 1) (a @ ''b'') = a" "drop (BUFFER_SIZE - 1) (a @ ''b'') = ''b''"
    using la by simp_all
  have rb: "rtrim ''b'' = ''b''" by (simp add: rtrim.simps trailing_def isspace_def)
  have "4 \<le> heap ?e" "rfile ?e ''long.txt'' = Inr (a @ ''b'' @ [NL])"
    by (simp_all add: quiet_env_def)
  from load_long_fresh [OF pa la _ _ _ this] obtain l' e' where
    ld: "load_from_file fresh_list ''long.txt'' ?e = Ret l' e'" and li: "list_items l' = [a, ''b'']"
    by (auto simp: rb BUFFER_SIZE_def)
  have vis: "\<exists>c\<in>set (take (BUFFER_SIZE - 1) (a @ ''b'')). \<not> isspace c"
    "\<exists>c\<in>set (drop (BUFFER_SIZE - 1) (a @ ''b'')). \<not> isspace c"
    unfolding td by (simp_all add: sa isspace_def)
  have rf: "rfile ?e ''long.txt'' = Inr ((a @ ''b'') @ [NL])" by simp
  note th = long_line_in_chunks [of "''ab'' @ [NL] @ ''c''" "''ab'' @ [NL]" "''c''" "a @ ''b''"
      fresh_list ?e "''long.txt''" l' e']
  have wf: "wf_list fresh_list" using fresh_list_wf by simp
  have cnt: "count fresh_list + 2 \<le> count l'"
    using th s wf vis rf ld by blast
  have fg: "fgets BUFFER_SIZE ((a @ ''b'') @ [NL]) = Some (a, ''b'' @ [NL])"
    using long_line_in_chunks [of _ _ "[]" "a @ ''b''"] s(1,2) td by simp
  show ?thesis
    using f0 s wf fg ld li cnt unfolding a_def by blast
qed

text \<open>
  The claim as stated promised several items for every such line. A file whose single
  line is 1023 letters followed by a space is longer than 1023 bytes, and loading it
  gives exactly one item: the second chunk is blank once trimmed.
\<close>

theorem long_line_counterexample:
  "NL \<notin> set (replicate 1023 (CHR ''a'') @ '' '') \<and>
   BUFFER_SIZE - 1 < length (replicate 1023 (CHR ''a'') @ '' '') \<and>
   (\<exists>l' e'. load_from_file fresh_list ''long.txt''
              (quiet_env 4\<lparr>rfile := \<lambda>_. Inr (replicate 1023 (CHR ''a'') @ '' '' @ [NL])\<rparr>)
              = Ret l' e' \<and>
            list_items l' = [replicate 1023 (CHR ''a'')] \<and> count l' = 1)"
proof -
  define a where "a = replicate 1023 (CHR ''a'')"
  let ?e = "quiet_env 4\<lparr>rfile := \<lambda>_. Inr (a @ '' '' @ [NL])\<rparr>"
  have la: "length a = BUFFER_SIZE - 1" by (simp add: a_def BUFFER_SIZE_def)
  have pa: "plain_item a"
    unfolding a_def by (rule plain_replicate) (simp_all add: BUFFER_SIZE_def isspace_def)
  have sa: "set a = {CHR ''a''}" by (simp add: a_def)
  have s: "NL \<notin> set (a @ '' '')" "BUFFER_SIZE - 1 < length (a @ '' '')"
    using la by (simp_all add: sa)
  have rb: "rtrim '' '' = []" by (simp add: rtrim.simps trailing_def isspace_def)
  have "4 \<le> heap ?e" "rfile ?e ''long.txt'' = Inr (a @ '' '' @ [NL])"
    by (simp_all add: quiet_env_def)
  from load_long_fresh [OF pa la _ _ _ this] obtain l' e' where
    ld: "load_from_file fresh_list ''long.txt'' ?e = Ret l' e'" and li: "list_items l' = [a]"
    by (auto simp: rb BUFFER_SIZE_def)
  have "length (list_items l') = 1" using li by simp
  then have "count l' = 1" by (simp add: list_items_length)
  then show ?thesis using s ld li unfolding a_def by blast
qed

end
